theory Spec2Isabelle
  imports Complex_Main "HOL-Library.Sublist" "HOL-Library.Multiset" "HOL-Library.Signed_Division"
    "HOL-Library.Monad_Syntax"
begin

section \<open>Conventions of the embedding\<close>

text \<open>
  The C++ type \<open>int\<close> is embedded as \<^typ>\<open>int\<close>.  In \<open>nosum\<close> and in the
  operations of a size set with one entry taken out the arithmetic is exact: on a size
  set with nonnegative entries every value computed there is a sum of distinct entries,
  so it lies between 0 and the total of the set, which the set holds in an \<open>int\<close>.
  In the constructor of the propagator and in the dual-feasibility bounds the operands
  are not bounded by anything the code holds, and every \<open>+\<close>, \<open>-\<close> and \<open>*\<close> on
  \<open>int\<close> is modelled with the two's-complement value of its 32-bit result
  (\<open>int_add\<close>, \<open>int_sub\<close>, \<open>int_mul\<close>), the value that the compiled code
  computes when the result leaves the range.  An operation whose behaviour the language
  leaves undefined and that has no such value (a read outside the valid index range of
  a size set, a failed \<open>assert\<close>, a division or modulo by zero) yields \<open>None\<close>; a
  function that performs such an operation returns an \<open>option\<close>, and \<open>Some\<close> means
  that every step was defined.
\<close>

text \<open>
  \<open>std::numeric_limits<int>::max()\<close> and \<open>min()\<close> for a 32-bit \<open>int\<close>, the
  two's-complement value of an \<open>int\<close> result that leaves the range, and the three
  arithmetic operators with that value.
\<close>

definition INT_MAX :: int where "INT_MAX = 2147483647"

definition INT_MIN :: int where "INT_MIN = - 2147483648"

definition wrap_int :: "int \<Rightarrow> int" where
  "wrap_int x = (x + 2147483648) mod 4294967296 - 2147483648"

definition int_add :: "int \<Rightarrow> int \<Rightarrow> int" where
  "int_add a b = wrap_int (a + b)"

definition int_sub :: "int \<Rightarrow> int \<Rightarrow> int" where
  "int_sub a b = wrap_int (a - b)"

definition int_mul :: "int \<Rightarrow> int \<Rightarrow> int" where
  "int_mul a b = wrap_int (a * b)"

section \<open>Size sets\<close>

text \<open>
  \<open>SizeSet\<close> has the fields \<open>n\<close> (number of entries), \<open>t\<close> (their total) and \<open>s\<close>
  (the storage allocated from the region).  The constructor receives the freshly
  allocated block, whose contents are arbitrary.
\<close>

record SizeSet =
  ss_n :: int
  ss_t :: int
  ss_s :: "int list"


text \<open>\<open>add\<close>: \<open>t += s0; s[n++] = s0\<close>.  Writing past the allocated block is undefined.\<close>

definition SizeSet_add :: "SizeSet \<Rightarrow> int \<Rightarrow> SizeSet option" where
  "SizeSet_add S s0 =
     (if 0 \<le> ss_n S \<and> nat (ss_n S) < length (ss_s S)
      then Some \<lparr>ss_n = ss_n S + 1, ss_t = ss_t S + s0,
                 ss_s = (ss_s S)[nat (ss_n S) := s0]\<rparr>
      else None)"

definition SizeSet_card :: "SizeSet \<Rightarrow> int" where
  "SizeSet_card S = ss_n S"

definition SizeSet_total :: "SizeSet \<Rightarrow> int" where
  "SizeSet_total S = ss_t S"

text \<open>
  \<open>operator[]\<close>: \<open>return s[i]\<close>.  The valid indices are those of the entries added so
  far, \<open>0 \<le> i < n\<close>; any other read is reported as \<open>None\<close>.
\<close>

definition SizeSet_index :: "SizeSet \<Rightarrow> int \<Rightarrow> int option" where
  "SizeSet_index S i =
     (if 0 \<le> i \<and> i < ss_n S \<and> nat i < length (ss_s S)
      then Some (ss_s S ! nat i) else None)"

text \<open>Adding a list of sizes one after the other, as the caller does.\<close>

fun SizeSet_adds :: "SizeSet \<Rightarrow> int list \<Rightarrow> SizeSet option" where
  "SizeSet_adds S [] = Some S"
| "SizeSet_adds S (x # xs) =
     (case SizeSet_add S x of None \<Rightarrow> None | Some S' \<Rightarrow> SizeSet_adds S' xs)"

text \<open>The entries a size set holds, and the invariant that links the three fields.\<close>

definition SizeSet_elems :: "SizeSet \<Rightarrow> int list" where
  "SizeSet_elems S = take (nat (ss_n S)) (ss_s S)"

definition SizeSet_inv :: "SizeSet \<Rightarrow> bool" where
  "SizeSet_inv S \<longleftrightarrow>
     0 \<le> ss_n S \<and> nat (ss_n S) \<le> length (ss_s S) \<and> ss_t S = sum_list (SizeSet_elems S)"

section \<open>The subset-sum gap test\<close>

text \<open>First loop of \<open>Pack::nosum\<close>: \<open>while (sc + s[n-kp] < a) { sc += s[n-kp]; kp++; }\<close>.\<close>

function nosum_while1 :: "SizeSet \<Rightarrow> int \<Rightarrow> int \<Rightarrow> int \<Rightarrow> int \<Rightarrow> (int \<times> int) option" where
  "nosum_while1 S n a sc kp =
     (case SizeSet_index S (n - kp) of
        None \<Rightarrow> None
      | Some x \<Rightarrow>
          if sc + x < a then nosum_while1 S n a (sc + x) (kp + 1) else Some (sc, kp))"
  by pat_completeness auto
termination
  by (relation "measure (\<lambda>(S, n, a, sc, kp). nat (n - kp + 1))")
     (auto simp: SizeSet_index_def split: if_splits)

text \<open>
  Innermost loop:
  \<open>while (sa + sc >= a) { kp--; sc -= s[n-kp]; sb += s[n-kp] - s[n-kp-k-1]; }\<close>.
\<close>

function nosum_while3 ::
  "SizeSet \<Rightarrow> int \<Rightarrow> int \<Rightarrow> int \<Rightarrow> int \<Rightarrow> int \<Rightarrow> int \<Rightarrow> int \<Rightarrow> (int \<times> int \<times> int) option" where
  "nosum_while3 S n a k sa kp sc sb =
     (if sa + sc \<ge> a then
        (case SizeSet_index S (n - (kp - 1)) of
           None \<Rightarrow> None
         | Some x \<Rightarrow>
             (case SizeSet_index S (n - (kp - 1) - k - 1) of
                None \<Rightarrow> None
              | Some y \<Rightarrow> nosum_while3 S n a k sa (kp - 1) (sc - x) (sb + (x - y))))
      else Some (kp, sc, sb))"
  by pat_completeness auto
termination
  by (relation "measure (\<lambda>(S, n, a, k, sa, kp, sc, sb). nat (kp + ss_n S - n))")
     (auto simp: SizeSet_index_def split: if_splits)

text \<open>
  Main loop:
  \<open>while ((sa < a) && (sb <= b)) { sa += s[k++]; if (sa < a) { kp--; sb += s[n-kp];
  sc -= s[n-kp]; <innermost loop> } }\<close>.
  The result is the final \<open>(k, sa, kp, sc, sb)\<close>.
\<close>

function nosum_while2 ::
  "SizeSet \<Rightarrow> int \<Rightarrow> int \<Rightarrow> int \<Rightarrow> int \<Rightarrow> int \<Rightarrow> int \<Rightarrow> int \<Rightarrow> int
     \<Rightarrow> (int \<times> int \<times> int \<times> int \<times> int) option" where
  "nosum_while2 S n a b k sa kp sc sb =
     (if sa < a \<and> sb \<le> b then
        (case SizeSet_index S k of
           None \<Rightarrow> None
         | Some x \<Rightarrow>
             if sa + x < a then
               (case SizeSet_index S (n - (kp - 1)) of
                  None \<Rightarrow> None
                | Some y \<Rightarrow>
                    (case nosum_while3 S n a (k + 1) (sa + x) (kp - 1) (sc - y) (sb + y) of
                       None \<Rightarrow> None
                     | Some (kp', sc', sb') \<Rightarrow>
                         nosum_while2 S n a b (k + 1) (sa + x) kp' sc' sb'))
             else nosum_while2 S n a b (k + 1) (sa + x) kp sc sb)
      else Some (k, sa, kp, sc, sb))"
  by pat_completeness auto
termination
  by (relation "measure (\<lambda>(S, n, a, b, k, sa, kp, sc, sb). nat (ss_n S - k))")
     (auto simp: SizeSet_index_def split: if_splits)

text \<open>
  \<open>Pack::nosum(s, a, b, ap, bp)\<close>.  The reference parameters \<open>ap\<close> and \<open>bp\<close> are passed
  in with their current values and returned with the result
  \<open>(decision, ap, bp)\<close>.
\<close>

definition nosum :: "SizeSet \<Rightarrow> int \<Rightarrow> int \<Rightarrow> int \<Rightarrow> int \<Rightarrow> (bool \<times> int \<times> int) option" where
  "nosum S a b ap bp =
     (if a \<le> 0 \<or> b \<ge> SizeSet_total S then Some (False, ap, bp)
      else
        (let n = SizeSet_card S - 1 in
         case nosum_while1 S n a 0 0 of
           None \<Rightarrow> None
         | Some (sc, kp) \<Rightarrow>
             (case SizeSet_index S (n - kp) of
                None \<Rightarrow> None
              | Some sb \<Rightarrow>
                  (case nosum_while2 S n a b 0 0 kp sc sb of
                     None \<Rightarrow> None
                   | Some (k, sa, kp', sc', sb') \<Rightarrow> Some (sa < a, sa + sc', sb')))))"

text \<open>
  The overload \<open>Pack::nosum(s, a, b)\<close> declares two locals and returns the decision
  only.  The locals are uninitialised in the source and never read; the model starts them
  at 0.
\<close>

definition nosum_ab :: "SizeSet \<Rightarrow> int \<Rightarrow> int \<Rightarrow> bool option" where
  "nosum_ab S a b = map_option fst (nosum S a b 0 0)"

section \<open>Size sets with one entry taken out\<close>











section \<open>Items and the packing propagator\<close>

text \<open>
  An \<open>Item\<close> is a bin view \<open>x\<close> (of an abstract view type) with a size \<open>s\<close>.
  \<open>Item::update(home, i)\<close> updates the view from \<open>i.x\<close> and copies \<open>i.s\<close>; the view's
  own update is a parameter.
\<close>

record 'v Item =
  it_x :: 'v
  it_s :: int

definition Item_size :: "'v Item \<Rightarrow> int" where
  "Item_size i = it_s i"

definition Item_update :: "('v \<Rightarrow> 'v) \<Rightarrow> 'v Item \<Rightarrow> 'v Item" where
  "Item_update upd i = \<lparr>it_x = upd (it_x i), it_s = it_s i\<rparr>"

text \<open>
  The propagator has the fields \<open>l\<close> (bin load views), \<open>bs\<close> (items) and \<open>t\<close> (total
  size).  The posting constructor stores the two arrays, sets \<open>t\<close> to 0 and runs
  \<open>for (int i=0; i<bs.size(); i++) t += bs[i].size();\<close>.  The cloning constructor
  initialises \<open>t\<close> with \<open>p.t\<close> and updates both arrays element by element.  The
  subscriptions made by the posting constructor act on the home space and leave the three
  fields alone; they are not part of the model.  The loop index starts at 0 and only
  grows, so the test \<open>0 \<le> i\<close> that the model adds for the conversion to an index
  never fails; it stays below \<open>bs.size()\<close>, an \<open>int\<close>, so \<open>i++\<close> is exact.  The
  accumulation \<open>t += bs[i].size()\<close> is an \<open>int\<close> addition.
\<close>

record ('l, 'v) Pack =
  pk_l :: "'l list"
  pk_bs :: "'v Item list"
  pk_t :: int

function Pack_total_loop :: "'v Item list \<Rightarrow> int \<Rightarrow> int \<Rightarrow> int" where
  "Pack_total_loop bs i t =
     (if 0 \<le> i \<and> i < int (length bs)
      then Pack_total_loop bs (i + 1) (int_add t (Item_size (bs ! nat i))) else t)"
  by pat_completeness auto
termination
  by (relation "measure (\<lambda>(bs, i, t). nat (int (length bs) - i))") auto

definition Pack_post :: "'l list \<Rightarrow> 'v Item list \<Rightarrow> ('l, 'v) Pack" where
  "Pack_post l0 bs0 = \<lparr>pk_l = l0, pk_bs = bs0, pk_t = Pack_total_loop bs0 0 0\<rparr>"

definition Pack_copy :: "('l \<Rightarrow> 'l) \<Rightarrow> ('v \<Rightarrow> 'v) \<Rightarrow> ('l, 'v) Pack \<Rightarrow> ('l, 'v) Pack" where
  "Pack_copy updl updx p =
     \<lparr>pk_l = map updl (pk_l p), pk_bs = map (Item_update updx) (pk_bs p), pk_t = pk_t p\<rparr>"

section \<open>Dual-feasibility lower bounds\<close>

text \<open>
  The operators \<open>/\<close> and \<open>%\<close> of C++ truncate towards zero.  They are undefined on
  a zero divisor, and on the smallest \<open>int\<close> divided by \<open>-1\<close>, whose quotient is
  not an \<open>int\<close>.
\<close>

definition c_div :: "int \<Rightarrow> int \<Rightarrow> int option" where
  "c_div a b = (if b = 0 \<or> (a = INT_MIN \<and> b = - 1) then None else Some (a sdiv b))"

definition c_mod :: "int \<Rightarrow> int \<Rightarrow> int option" where
  "c_mod a b = (if b = 0 \<or> (a = INT_MIN \<and> b = - 1) then None else Some (a smod b))"

text \<open>
  Modelled from the spec: \<open>ceil_div_pp\<close> is a helper of the integer module whose
  definition is not part of the bin-packing sources.  The specification describes it as
  ceiling division on nonnegative operands; the model is the ceiling of the exact
  quotient, undefined on a zero divisor.
\<close>

definition ceil_div_pp :: "int \<Rightarrow> int \<Rightarrow> int option" where
  "ceil_div_pp x y = (if y = 0 then None else Some (- ((- x) div y)))"

text \<open>The closed range \<open>{min, max}\<close> of sampling parameters.\<close>

record LambdaRange =
  lr_min :: int
  lr_max :: int

text \<open>
  The six transforms.  Each computes its conditions \<open>c0, c1, \<dots>\<close> as 0 or 1 and all of
  its values \<open>v0, v1, \<dots>\<close> before it combines them, so every division of the source is
  performed whatever the conditions are.  Sums, differences and products are those of
  \<open>int\<close>.
\<close>

definition fCCM1 :: "int \<Rightarrow> int \<Rightarrow> int \<Rightarrow> int option" where
  "fCCM1 w l c = do {
     let c0 = of_bool (int_mul 2 w > c);
     let c1 = of_bool (int_mul 2 w = c);
     let c2 = of_bool (int_mul 2 w < c);
     q0 \<leftarrow> c_div c l;
     q1 \<leftarrow> c_div (int_sub c w) l;
     let v0 = int_mul 2 (int_sub q0 q1);
     v1 \<leftarrow> c_div c l;
     q2 \<leftarrow> c_div w l;
     let v2 = int_mul 2 q2;
     Some (int_add (int_add (int_mul c0 v0) (int_mul c1 v1)) (int_mul c2 v2))
   }"

definition fMT :: "int \<Rightarrow> int \<Rightarrow> int \<Rightarrow> int option" where
  "fMT w l c =
     (let c0 = of_bool (w < l);
          c1 = of_bool (l \<le> w \<and> w \<le> int_sub c l);
          c2 = of_bool (int_sub c l < w);
          v0 = 0;
          v1 = w;
          v2 = c
      in Some (int_add (int_add (int_mul c0 v0) (int_mul c1 v1)) (int_mul c2 v2)))"

definition fBJ1 :: "int \<Rightarrow> int \<Rightarrow> int \<Rightarrow> int option" where
  "fBJ1 w l c = do {
     cl \<leftarrow> c_mod c l;
     let p = int_sub l cl;
     wl \<leftarrow> c_mod w l;
     let c0 = of_bool (wl \<le> cl);
     let c1 = of_bool (wl > cl);
     q \<leftarrow> c_div w l;
     let v0 = int_mul q p;
     let v1 = int_sub (int_add (int_mul q p) wl) cl;
     Some (int_add (int_mul c0 v0) (int_mul c1 v1))
   }"

definition fVB2Base :: "int \<Rightarrow> int \<Rightarrow> int \<Rightarrow> int option" where
  "fVB2Base w l c = do {
     v \<leftarrow> ceil_div_pp (int_mul l w) c;
     Some (if v > 0 then int_sub v 1 else 0)
   }"

definition fVB2 :: "int \<Rightarrow> int \<Rightarrow> int \<Rightarrow> int option" where
  "fVB2 w l c = do {
     let c0 = of_bool (int_mul 2 w > c);
     let c1 = of_bool (int_mul 2 w = c);
     let c2 = of_bool (int_mul 2 w < c);
     t0 \<leftarrow> fVB2Base c l c;
     t1 \<leftarrow> fVB2Base w l c;
     t2 \<leftarrow> fVB2Base (int_sub c w) l c;
     let v0 = int_sub (int_mul 2 t0) (int_mul 2 t2);
     let v1 = t0;
     let v2 = int_mul 2 t1;
     Some (int_add (int_add (int_mul c0 v0) (int_mul c1 v1)) (int_mul c2 v2))
   }"

definition fFS1 :: "int \<Rightarrow> int \<Rightarrow> int \<Rightarrow> int option" where
  "fFS1 w l c = do {
     m0 \<leftarrow> c_mod (int_mul w (int_add l 1)) c;
     let c0 = of_bool (m0 = 0);
     m1 \<leftarrow> c_mod (int_mul w (int_add l 1)) c;
     let c1 = of_bool (m1 \<noteq> 0);
     let v0 = int_mul w l;
     q \<leftarrow> c_div (int_mul w (int_add l 1)) c;
     let v1 = int_mul q c;
     Some (int_add (int_mul c0 v0) (int_mul c1 v1))
   }"

definition fRAD2Base :: "int \<Rightarrow> int \<Rightarrow> int \<Rightarrow> int" where
  "fRAD2Base w l c =
     (let c0 = of_bool (w < l);
          c1 = of_bool (l \<le> w \<and> w \<le> int_sub c (int_mul 2 l));
          c2 = of_bool (int_sub c (int_mul 2 l) < w \<and> w < int_mul 2 l);
          v0 = 0;
          v1 = c sdiv 3;
          v2 = c sdiv 2
      in int_add (int_add (int_mul c0 v0) (int_mul c1 v1)) (int_mul c2 v2))"

definition fRAD2 :: "int \<Rightarrow> int \<Rightarrow> int \<Rightarrow> int option" where
  "fRAD2 w l c =
     (let c0 = of_bool (w < int_mul 2 l);
          c1 = of_bool (int_mul 2 l \<le> w);
          v0 = fRAD2Base w l c;
          v1 = int_sub c (fRAD2Base (int_sub c w) l c)
      in Some (int_add (int_mul c0 v0) (int_mul c1 v1)))"

text \<open>The range of sampling parameters of each transform.\<close>

definition lCCM1 :: "int \<Rightarrow> LambdaRange" where
  "lCCM1 c = \<lparr>lr_min = 1, lr_max = c sdiv 2\<rparr>"

definition lMT :: "int \<Rightarrow> LambdaRange" where
  "lMT c = \<lparr>lr_min = 0, lr_max = c sdiv 2\<rparr>"

definition lBJ1 :: "int \<Rightarrow> LambdaRange" where
  "lBJ1 c = \<lparr>lr_min = 1, lr_max = c\<rparr>"

definition lVB2 :: "int \<Rightarrow> LambdaRange" where
  "lVB2 c = \<lparr>lr_min = 2, lr_max = c\<rparr>"

definition lFS1 :: "int \<Rightarrow> LambdaRange" where
  "lFS1 c = \<lparr>lr_min = 1, lr_max = 100\<rparr>"

definition lRAD2 :: "int \<Rightarrow> LambdaRange" where
  "lRAD2 c = \<lparr>lr_min = int_add (c sdiv 4) 1, lr_max = c sdiv 3\<rparr>"

text \<open>
  \<open>sanitizeLambdaRange\<close>: the product \<open>nNotZeroWeights * maxWeight\<close> is an \<open>int\<close>
  product; the division \<open>max() / product\<close> is guarded by the test \<open>product != 0\<close>.
\<close>

definition sanitizeLambdaRange :: "LambdaRange \<Rightarrow> int \<Rightarrow> int \<Rightarrow> LambdaRange" where
  "sanitizeLambdaRange lambdaRange nNotZeroWeights maxWeight =
     (if wrap_int (nNotZeroWeights * maxWeight) \<noteq> 0 then
        (let lMax = min (INT_MAX sdiv wrap_int (nNotZeroWeights * maxWeight))
                        (lr_max lambdaRange)
         in \<lparr>lr_min = lr_min lambdaRange, lr_max = lMax\<rparr>)
      else \<lparr>lr_min = 0, lr_max = - 1\<rparr>)"

text \<open>
  \<open>calcDffLowerboundSingleLambda\<close>: the loop over the weights accumulates
  \<open>f(weights[wIdx], lambda, capacity)\<close> into an \<open>int\<close>, then the capacity is
  transformed and the bound is the ceiling division of the two.
\<close>

fun sumTransformedWeights ::
  "(int \<Rightarrow> int \<Rightarrow> int \<Rightarrow> int option) \<Rightarrow> int list \<Rightarrow> int \<Rightarrow> int \<Rightarrow> int \<Rightarrow> int option" where
  "sumTransformedWeights f [] lambda capacity acc = Some acc"
| "sumTransformedWeights f (w # ws) lambda capacity acc =
     (case f w lambda capacity of
        None \<Rightarrow> None
      | Some v \<Rightarrow> sumTransformedWeights f ws lambda capacity (int_add acc v))"

definition calcDffLowerboundSingleLambda ::
  "(int \<Rightarrow> int \<Rightarrow> int \<Rightarrow> int option) \<Rightarrow> int list \<Rightarrow> int \<Rightarrow> int \<Rightarrow> int option" where
  "calcDffLowerboundSingleLambda f weights capacity lambda = do {
     s \<leftarrow> sumTransformedWeights f weights lambda capacity 0;
     transformedCapacity \<leftarrow> f capacity lambda capacity;
     ceil_div_pp s transformedCapacity
   }"

text \<open>
  The sampling loop of \<open>calcDffLowerbound\<close>:
  \<open>for (lambda = min + lStep; lambda < max; lambda += lStep)\<close> with body
  \<open>fLowerbound = max(fLowerbound, calcDffLowerboundSingleLambda(\<dots>))\<close>.  The
  increment is an \<open>int\<close> addition, so the loop need not leave \<open>lambda < max\<close>; a
  run that never does has the value \<open>None\<close>, like a division by zero in the body.
\<close>

partial_function (option) dff_loop ::
  "(int \<Rightarrow> int \<Rightarrow> int \<Rightarrow> int option) \<Rightarrow> int list \<Rightarrow> int \<Rightarrow> int \<Rightarrow> int \<Rightarrow> int \<Rightarrow> int \<Rightarrow> int option" where
  "dff_loop f weights capacity lambda hi lStep fLowerbound =
     (if lambda < hi then
        (case calcDffLowerboundSingleLambda f weights capacity lambda of
           None \<Rightarrow> None
         | Some lowerbound \<Rightarrow>
             dff_loop f weights capacity (int_add lambda lStep) hi lStep
               (max fLowerbound lowerbound))
      else Some fLowerbound)"

text \<open>
  \<open>calcDffLowerbound<f, l>\<close>.  The template arguments \<open>f\<close> and \<open>l\<close> and the class
  constant \<open>nLambdaSamples\<close>, which is declared in the class and not in this file, are
  parameters.  The sum \<open>nLambdaSamples + 1\<close> is a constant expression, which the
  compiler rejects if it overflows, and is taken exactly.
\<close>

definition calcDffLowerbound ::
  "(int \<Rightarrow> int \<Rightarrow> int \<Rightarrow> int option) \<Rightarrow> (int \<Rightarrow> LambdaRange) \<Rightarrow> int \<Rightarrow>
     int list \<Rightarrow> int \<Rightarrow> int \<Rightarrow> int \<Rightarrow> bool \<Rightarrow> int option" where
  "calcDffLowerbound f l nLambdaSamples weights capacity nNotZeroWeights maxWeight sanitize =
     (let lambdaRange = l capacity;
          lambdaRange = (if sanitize
                         then sanitizeLambdaRange lambdaRange nNotZeroWeights maxWeight
                         else lambdaRange)
      in case ceil_div_pp (int_add (int_sub (lr_max lambdaRange) (lr_min lambdaRange)) 1)
                (nLambdaSamples + 1) of
           None \<Rightarrow> None
         | Some lStep \<Rightarrow>
             dff_loop f weights capacity (int_add (lr_min lambdaRange) lStep)
               (lr_max lambdaRange) lStep 0)"

section \<open>Notions of the specification\<close>

text \<open>
  \<open>is_int x\<close>: the value \<open>x\<close> lies in the range of \<open>int\<close>.  \<open>int_sums_fit t xs\<close>:
  adding the values \<open>xs\<close> to \<open>t\<close> one after the other never leaves that range.
\<close>

definition is_int :: "int \<Rightarrow> bool" where
  "is_int x \<longleftrightarrow> INT_MIN \<le> x \<and> x \<le> INT_MAX"

fun int_sums_fit :: "int \<Rightarrow> int list \<Rightarrow> bool" where
  "int_sums_fit t [] = True"
| "int_sums_fit t (x # xs) = (is_int (t + x) \<and> int_sums_fit (t + x) xs)"

text \<open>
  The range that \<open>calcDffLowerbound\<close> samples: the first two statements of its body.
\<close>

definition dff_range :: "(int \<Rightarrow> LambdaRange) \<Rightarrow> int \<Rightarrow> int \<Rightarrow> int \<Rightarrow> bool \<Rightarrow> LambdaRange" where
  "dff_range l capacity nNotZeroWeights maxWeight sanitize =
     (if sanitize then sanitizeLambdaRange (l capacity) nNotZeroWeights maxWeight
      else l capacity)"

text \<open>
  The evenly spaced parameters \<open>lambda\<close>, \<open>lambda + lStep\<close>, \<open>lambda + 2 lStep\<close>,
  \<dots> below \<open>hi\<close>, in exact arithmetic.
\<close>

function dff_lambdas :: "int \<Rightarrow> int \<Rightarrow> int \<Rightarrow> int list" where
  "dff_lambdas lambda hi lStep =
     (if lambda < hi \<and> 0 < lStep then lambda # dff_lambdas (lambda + lStep) hi lStep else [])"
  by pat_completeness auto
termination
  by (relation "measure (\<lambda>(lambda, hi, lStep). nat (hi - lambda))") auto


text \<open>
  The specification speaks of the sub-multisets of a size set and of their sums.  Every
  sub-multiset of the entries \<open>xs\<close> is the multiset of a subsequence of \<open>xs\<close>, so
  the achievable sums are enumerated by \<open>subseqs\<close>.
\<close>

definition subset_sums :: "int list \<Rightarrow> int list" where
  "subset_sums xs = map sum_list (subseqs xs)"

text \<open>\<open>SizeSet_holds S xs\<close>: the size set \<open>S\<close> holds exactly the entries \<open>xs\<close>.\<close>

definition SizeSet_holds :: "SizeSet \<Rightarrow> int list \<Rightarrow> bool" where
  "SizeSet_holds S xs \<longleftrightarrow> SizeSet_inv S \<and> SizeSet_elems S = xs"

text \<open>
  The shape of the three accumulators of \<open>nosum\<close>: \<open>sa\<close> sums the \<open>K\<close> largest
  entries, \<open>sc\<close> the entries from position \<open>L + K + 1\<close> on (the smallest ones), and
  \<open>sb\<close> the \<open>K + 1\<close> entries that start at position \<open>L\<close> and end just before them.
\<close>

definition nosum_state :: "int list \<Rightarrow> int \<Rightarrow> nat \<Rightarrow> nat \<Rightarrow> int \<Rightarrow> int \<Rightarrow> int \<Rightarrow> bool" where
  "nosum_state xs a K L sa sc sb \<longleftrightarrow>
     L + K + 1 \<le> length xs \<and> sa = sum_list (take K xs) \<and>
     sc = sum_list (drop (L + K + 1) xs) \<and> sb = sum_list (take (Suc K) (drop L xs)) \<and>
     sa + sc < a"

declare nosum_while1.simps [simp del]
declare nosum_while2.simps [simp del]
declare nosum_while3.simps [simp del]

declare Pack_total_loop.simps [simp del]
declare dff_lambdas.simps [simp del]

section \<open>Subsequences and their sums\<close>

lemma in_subset_sums: "v \<in> set (subset_sums xs) \<longleftrightarrow> (\<exists>t. subseq t xs \<and> sum_list t = v)"
  by (auto simp: subset_sums_def)

lemma submset_subseq: "M \<subseteq># mset xs \<Longrightarrow> \<exists>t. subseq t xs \<and> mset t = M"
proof (induction xs arbitrary: M)
  case Nil
  then show ?case by simp
next
  case (Cons x xs)
  show ?case
  proof (cases "x \<in># M")
    case True
    have "M - {#x#} \<subseteq># mset xs"
      unfolding subseteq_mset_def
    proof
      fix a
      from Cons.prems have "count M a \<le> count (mset (x # xs)) a"
        by (simp only: subseteq_mset_def)
      then show "count (M - {#x#}) a \<le> count (mset xs) a" by (cases "a = x") auto
    qed
    from Cons.IH [OF this] obtain t where t: "subseq t xs" "mset t = M - {#x#}" by blast
    with True have "subseq (x # t) (x # xs) \<and> mset (x # t) = M" by simp
    then show ?thesis by blast
  next
    case False
    have "M \<subseteq># mset xs"
      unfolding subseteq_mset_def
    proof
      fix a
      from Cons.prems have "count M a \<le> count (mset (x # xs)) a"
        by (simp only: subseteq_mset_def)
      with False show "count M a \<le> count (mset xs) a"
        by (cases "a = x") (auto simp: not_in_iff)
    qed
    from Cons.IH [OF this] obtain t where t: "subseq t xs" "mset t = M" by blast
    then have "subseq t (x # xs)" by auto
    with t show ?thesis by blast
  qed
qed

lemma subseq_submset: "subseq t xs \<Longrightarrow> mset t \<subseteq># mset xs"
  by (induction rule: list_emb.induct) (auto intro: subset_mset.order_trans)

lemma subset_sums_mset:
  "v \<in> set (subset_sums xs) \<longleftrightarrow> (\<exists>M. M \<subseteq># mset xs \<and> sum_mset M = v)"
proof
  assume "v \<in> set (subset_sums xs)"
  then obtain t where "subseq t xs" "sum_list t = v" by (auto simp: in_subset_sums)
  then have "mset t \<subseteq># mset xs \<and> sum_mset (mset t) = v"
    by (simp add: subseq_submset sum_mset_sum_list)
  then show "\<exists>M. M \<subseteq># mset xs \<and> sum_mset M = v" by blast
next
  assume "\<exists>M. M \<subseteq># mset xs \<and> sum_mset M = v"
  then obtain M where M: "M \<subseteq># mset xs" "sum_mset M = v" by blast
  from submset_subseq [OF M(1)] obtain t where "subseq t xs" "mset t = M" by blast
  then have "sum_list t = sum_mset M" by (simp add: sum_mset_sum_list [symmetric])
  with M(2) \<open>subseq t xs\<close> have "subseq t xs \<and> sum_list t = v" by simp
  then show "v \<in> set (subset_sums xs)" by (auto simp: in_subset_sums)
qed

text \<open>Sums of subsequences of nonnegative lists.\<close>

lemma sum_list_nonneg_int: "\<forall>x\<in>set xs. (0::int) \<le> x \<Longrightarrow> 0 \<le> sum_list xs"
  by (induction xs) auto

lemma subseq_sum_le:
  fixes xs :: "int list"
  assumes "subseq t xs" "\<forall>x\<in>set xs. 0 \<le> x"
  shows "sum_list t \<le> sum_list xs"
  using assms by (induction rule: list_emb.induct) (auto simp: sum_list_nonneg_int)

lemma subseq_set_mono: "subseq t xs \<Longrightarrow> set t \<subseteq> set xs"
  by (induction rule: list_emb.induct) auto

lemma subseq_Cons_Cons_tl: "subseq (y # t) (x # xs) \<Longrightarrow> subseq t xs"
  by (cases "y = x") (auto dest: subseq_Cons')

lemma subseq_short_le_take:
  fixes xs :: "int list"
  assumes "sorted_wrt (\<ge>) xs" "\<forall>x\<in>set xs. 0 \<le> x" "subseq t xs" "length t \<le> k"
  shows "sum_list t \<le> sum_list (take k xs)"
  using assms
proof (induction xs arbitrary: t k)
  case Nil
  then show ?case by (auto dest: list_emb_Nil2)
next
  case (Cons x xs)
  show ?case
  proof (cases t)
    case Nil
    have "\<forall>y\<in>set (take k (x # xs)). 0 \<le> y" using Cons.prems(2) by (meson in_set_takeD)
    then have "0 \<le> sum_list (take k (x # xs))" by (rule sum_list_nonneg_int)
    with Nil show ?thesis by simp
  next
    case t: (Cons y t')
    with Cons.prems(4) obtain k' where k: "k = Suc k'" "length t' \<le> k'" by (cases k) auto
    have "y \<in> set (x # xs)" using subseq_set_mono [OF Cons.prems(3)] t by auto
    with Cons.prems(1) have yx: "y \<le> x" by auto
    from Cons.prems(3) have sub: "subseq t' xs" unfolding t by (rule subseq_Cons_Cons_tl)
    have "sorted_wrt (\<ge>) xs" "\<forall>x\<in>set xs. 0 \<le> x" using Cons.prems(1,2) by simp_all
    from Cons.IH [OF this sub k(2)] have "sum_list t' \<le> sum_list (take k' xs)" .
    with yx show ?thesis unfolding t k by simp
  qed
qed


lemma subseq_long_ge_take:
  fixes xs :: "int list"
  assumes "sorted_wrt (\<le>) xs" "\<forall>x\<in>set xs. 0 \<le> x" "subseq t xs" "m \<le> length t"
  shows "sum_list (take m xs) \<le> sum_list t"
  using assms
proof (induction xs arbitrary: t m)
  case Nil
  then show ?case by (auto dest: list_emb_Nil2)
next
  case (Cons x xs)
  show ?case
  proof (cases m)
    case 0
    have "\<forall>y\<in>set t. 0 \<le> y" using Cons.prems(2) subseq_set_mono [OF Cons.prems(3)] by blast
    then have "0 \<le> sum_list t" by (rule sum_list_nonneg_int)
    with 0 show ?thesis by simp
  next
    case (Suc m')
    with Cons.prems(4) obtain y t' where t: "t = y # t'" "m' \<le> length t'" by (cases t) auto
    have "y \<in> set (x # xs)" using subseq_set_mono [OF Cons.prems(3)] t by auto
    with Cons.prems(1) have yx: "x \<le> y" by auto
    from Cons.prems(3) have sub: "subseq t' xs" unfolding t by (rule subseq_Cons_Cons_tl)
    have "sorted_wrt (\<le>) xs" "\<forall>x\<in>set xs. 0 \<le> x" using Cons.prems(1,2) by simp_all
    from Cons.IH [OF this sub t(2)] have "sum_list (take m' xs) \<le> sum_list t'" .
    with yx show ?thesis unfolding t Suc by simp
  qed
qed

lemma subseq_rev_rev: "subseq t xs \<Longrightarrow> subseq (rev t) (rev xs)"
  by (induction rule: list_emb.induct)
     (auto intro: subseq_rev_drop_many list_emb_append_mono)

text \<open>
  The gap lemma: a subsequence either takes at most \<open>K\<close> entries before position
  \<open>L + K + 1\<close>, or at least \<open>K + 1\<close> of them.
\<close>

lemma subseq_gap:
  fixes xs :: "int list"
  assumes srt: "sorted_wrt (\<ge>) xs" and nn: "\<forall>x\<in>set xs. 0 \<le> x"
    and len: "L + K + 1 \<le> length xs" and sub: "subseq t xs"
  shows "sum_list t \<le> sum_list (take K xs) + sum_list (drop (L + K + 1) xs)
       \<or> sum_list (take (Suc K) (drop L xs)) \<le> sum_list t"
proof -
  define pre where "pre = take (L + K + 1) xs"
  define suf where "suf = drop (L + K + 1) xs"
  have xs: "xs = pre @ suf" by (simp add: pre_def suf_def)
  have lpre: "length pre = L + K + 1" using len by (simp add: pre_def)
  from sub obtain t1 t2 where t: "t = t1 @ t2" "subseq t1 pre" "subseq t2 suf"
    unfolding xs by (rule subseq_appendE)
  have nnpre: "\<forall>x\<in>set pre. 0 \<le> x" and nnsuf: "\<forall>x\<in>set suf. 0 \<le> x"
    using nn xs by auto
  have spre: "sorted_wrt (\<ge>) pre" using srt xs by (simp add: sorted_wrt_append)
  have s2: "sum_list t2 \<le> sum_list suf" by (rule subseq_sum_le [OF t(3) nnsuf])
  have "\<forall>y\<in>set t2. 0 \<le> y" using subseq_set_mono [OF t(3)] nnsuf by blast
  then have t2nn: "0 \<le> sum_list t2" by (rule sum_list_nonneg_int)
  show ?thesis
  proof (cases "length t1 \<le> K")
    case True
    have "sum_list t1 \<le> sum_list (take K pre)"
      by (rule subseq_short_le_take [OF spre nnpre t(2) True])
    also have "take K pre = take K xs" by (simp add: pre_def min_absorb1)
    finally show ?thesis using s2 by (simp add: t(1) suf_def)
  next
    case False
    then have m: "K + 1 \<le> length t1" by simp
    have "sorted_wrt (\<le>) (rev pre)" using spre by (simp add: sorted_wrt_rev)
    moreover have "\<forall>x\<in>set (rev pre). 0 \<le> x" using nnpre by simp
    moreover have "subseq (rev t1) (rev pre)" using t(2) by (rule subseq_rev_rev)
    moreover have "K + 1 \<le> length (rev t1)" using m by simp
    ultimately have "sum_list (take (K + 1) (rev pre)) \<le> sum_list (rev t1)"
      by (rule subseq_long_ge_take)
    moreover have "take (K + 1) (rev pre) = rev (drop (length pre - (K + 1)) pre)"
      by (simp add: take_rev)
    moreover have "length pre - (K + 1) = L" using lpre by simp
    moreover have "drop L pre = take (Suc K) (drop L xs)"
      by (simp add: pre_def drop_take)
    ultimately have "sum_list (take (Suc K) (drop L xs)) \<le> sum_list t1"
      by (simp add: sum_list_rev)
    with t2nn show ?thesis by (simp add: t(1))
  qed
qed

section \<open>Size sets and the entries they hold\<close>

lemma holds_n: "SizeSet_holds S xs \<Longrightarrow> ss_n S = int (length xs)"
  by (auto simp: SizeSet_holds_def SizeSet_inv_def SizeSet_elems_def)

lemma holds_t: "SizeSet_holds S xs \<Longrightarrow> ss_t S = sum_list xs"
  by (auto simp: SizeSet_holds_def SizeSet_inv_def)

lemma holds_index:
  assumes "SizeSet_holds S xs" "i < length xs"
  shows "SizeSet_index S (int i) = Some (xs ! i)"
  using assms
  by (auto simp: SizeSet_holds_def SizeSet_inv_def SizeSet_elems_def SizeSet_index_def)


lemma add_holds:
  assumes "SizeSet_holds S xs" "SizeSet_add S x = Some S'"
  shows "SizeSet_holds S' (xs @ [x])"
proof -
  from assms(1) have n: "0 \<le> ss_n S" "nat (ss_n S) \<le> length (ss_s S)"
    and t: "ss_t S = sum_list xs" and e: "take (nat (ss_n S)) (ss_s S) = xs"
    by (auto simp: SizeSet_holds_def SizeSet_inv_def SizeSet_elems_def)
  from assms(2) have lt: "nat (ss_n S) < length (ss_s S)"
    and S': "S' = \<lparr>ss_n = ss_n S + 1, ss_t = ss_t S + x, ss_s = (ss_s S)[nat (ss_n S) := x]\<rparr>"
    by (auto simp: SizeSet_add_def split: if_splits)
  have "nat (ss_n S + 1) = Suc (nat (ss_n S))" using n(1) by simp
  then have "take (nat (ss_n S + 1)) ((ss_s S)[nat (ss_n S) := x]) = xs @ [x]"
    using lt e by (simp add: take_Suc_conv_app_nth)
  then show ?thesis
    using n lt t by (simp add: S' SizeSet_holds_def SizeSet_inv_def SizeSet_elems_def)
qed


lemma adds_defined:
  "SizeSet_holds S xs \<Longrightarrow> length xs + length ys \<le> length (ss_s S)
     \<Longrightarrow> \<exists>S'. SizeSet_adds S ys = Some S'"
proof (induction ys arbitrary: S xs)
  case Nil
  then show ?case by simp
next
  case (Cons y ys)
  from Cons.prems have "0 \<le> ss_n S \<and> nat (ss_n S) < length (ss_s S)"
    by (auto simp: holds_n)
  then obtain S1 where S1: "SizeSet_add S y = Some S1" "length (ss_s S1) = length (ss_s S)"
    by (auto simp: SizeSet_add_def)
  from add_holds [OF Cons.prems(1) S1(1)] have h: "SizeSet_holds S1 (xs @ [y])" .
  have "length (xs @ [y]) + length ys \<le> length (ss_s S1)" using Cons.prems(2) S1(2) by simp
  from Cons.IH [OF h this] S1(1) show ?case by simp
qed

text \<open>Sums of windows of a list.\<close>

lemma sum_drop_Suc:
  fixes xs :: "int list"
  shows "i < length xs \<Longrightarrow> sum_list (drop i xs) = xs ! i + sum_list (drop (Suc i) xs)"
  by (simp add: Cons_nth_drop_Suc [symmetric])

lemma sum_take_Suc:
  fixes xs :: "int list"
  shows "i < length xs \<Longrightarrow> sum_list (take (Suc i) xs) = sum_list (take i xs) + xs ! i"
  by (simp add: take_Suc_conv_app_nth)

lemma window_snoc:
  fixes xs :: "int list"
  shows "i + m < length xs \<Longrightarrow>
    sum_list (take (Suc m) (drop i xs)) = sum_list (take m (drop i xs)) + xs ! (i + m)"
  by (simp add: take_Suc_conv_app_nth)

lemma window_cons:
  fixes xs :: "int list"
  shows "i < length xs \<Longrightarrow>
    sum_list (take (Suc m) (drop i xs)) = xs ! i + sum_list (take m (drop (Suc i) xs))"
  by (simp add: Cons_nth_drop_Suc [symmetric])

lemma window_slide:
  fixes xs :: "int list"
  assumes "i + Suc m < length xs"
  shows "sum_list (take (Suc m) (drop (Suc i) xs))
       = sum_list (take (Suc m) (drop i xs)) + (xs ! (i + Suc m) - xs ! i)"
proof -
  have "sum_list (take (Suc (Suc m)) (drop i xs))
      = sum_list (take (Suc m) (drop i xs)) + xs ! (i + Suc m)"
    using assms by (rule window_snoc)
  moreover have "sum_list (take (Suc (Suc m)) (drop i xs))
      = xs ! i + sum_list (take (Suc m) (drop (Suc i) xs))"
    using assms by (intro window_cons) simp
  ultimately show ?thesis by simp
qed

lemma sorted_desc_nth:
  fixes xs :: "int list"
  shows "sorted_wrt (\<ge>) xs \<Longrightarrow> i \<le> j \<Longrightarrow> j < length xs \<Longrightarrow> xs ! j \<le> xs ! i"
  by (cases "i = j") (auto simp: sorted_wrt_iff_nth_less)

section \<open>The loops of the gap test\<close>

lemma nosum_while1_scan:
  fixes xs :: "int list"
  assumes h: "SizeSet_holds S xs"
    and tot: "a \<le> sum_list xs"
    and L: "L < length xs"
    and sc: "sum_list (drop (Suc L) xs) < a"
  shows "\<exists>L'. L' \<le> L \<and>
           nosum_while1 S (int (length xs) - 1) a (sum_list (drop (Suc L) xs))
             (int (length xs) - 1 - int L)
           = Some (sum_list (drop (Suc L') xs), int (length xs) - 1 - int L')
         \<and> sum_list (drop (Suc L') xs) < a
         \<and> a \<le> sum_list (drop (Suc L') xs) + xs ! L'"
  using L sc
proof (induction L)
  case 0
  have idx: "SizeSet_index S (int (length xs) - 1 - (int (length xs) - 1 - int 0)) = Some (xs ! 0)"
    using holds_index [OF h "0.prems"(1)] by simp
  have "sum_list (drop 0 xs) = xs ! 0 + sum_list (drop (Suc 0) xs)"
    using "0.prems"(1) by (rule sum_drop_Suc)
  with tot have ge: "a \<le> sum_list (drop (Suc 0) xs) + xs ! 0" by simp
  have "nosum_while1 S (int (length xs) - 1) a (sum_list (drop (Suc 0) xs))
             (int (length xs) - 1 - int 0)
           = Some (sum_list (drop (Suc 0) xs), int (length xs) - 1 - int 0)"
    by (subst nosum_while1.simps) (use ge in \<open>simp only: idx option.case if_False not_less [symmetric]\<close>)
  with "0.prems"(2) ge show ?case by blast
next
  case (Suc L)
  have idx: "SizeSet_index S (int (length xs) - 1 - (int (length xs) - 1 - int (Suc L)))
               = Some (xs ! Suc L)"
    using holds_index [OF h Suc.prems(1)] by simp
  show ?case
  proof (cases "sum_list (drop (Suc (Suc L)) xs) + xs ! Suc L < a")
    case True
    have eq: "sum_list (drop (Suc L) xs) = xs ! Suc L + sum_list (drop (Suc (Suc L)) xs)"
      using Suc.prems(1) by (rule sum_drop_Suc)
    with True have lt: "sum_list (drop (Suc L) xs) < a" by simp
    from Suc.prems(1) have L: "L < length xs" by simp
    from Suc.IH [OF L lt] obtain L' where L': "L' \<le> L"
      "nosum_while1 S (int (length xs) - 1) a (sum_list (drop (Suc L) xs))
             (int (length xs) - 1 - int L)
           = Some (sum_list (drop (Suc L') xs), int (length xs) - 1 - int L')"
      "sum_list (drop (Suc L') xs) < a"
      "a \<le> sum_list (drop (Suc L') xs) + xs ! L'" by blast
    have kp: "int (length xs) - 1 - int (Suc L) + 1 = int (length xs) - 1 - int L" by simp
    have sc: "sum_list (drop (Suc (Suc L)) xs) + xs ! Suc L = sum_list (drop (Suc L) xs)"
      using eq by simp
    have "nosum_while1 S (int (length xs) - 1) a (sum_list (drop (Suc (Suc L)) xs))
             (int (length xs) - 1 - int (Suc L))
           = Some (sum_list (drop (Suc L') xs), int (length xs) - 1 - int L')"
      by (subst nosum_while1.simps) (use True in \<open>simp only: idx option.case if_True kp sc L'(2)\<close>)
    with L' show ?thesis by (intro exI [of _ L']) simp
  next
    case False
    then have ge: "a \<le> sum_list (drop (Suc (Suc L)) xs) + xs ! Suc L" by simp
    have "nosum_while1 S (int (length xs) - 1) a (sum_list (drop (Suc (Suc L)) xs))
             (int (length xs) - 1 - int (Suc L))
           = Some (sum_list (drop (Suc (Suc L)) xs), int (length xs) - 1 - int (Suc L))"
      by (subst nosum_while1.simps) (use False in \<open>simp only: idx option.case if_False\<close>)
    with Suc.prems(2) ge show ?thesis by blast
  qed
qed

lemma drop_sum_pos_less:
  fixes xs :: "int list"
  assumes "0 < sum_list (drop j xs)"
  shows "j < length xs"
proof (rule ccontr)
  assume "\<not> j < length xs"
  then have "drop j xs = []" by simp
  with assms show False by simp
qed

lemma nosum_while3_shift:
  fixes xs :: "int list"
  assumes h: "SizeSet_holds S xs"
    and sa: "sa < a"
  shows "L + K + 1 \<le> length xs \<Longrightarrow>
         a \<le> sa + sum_list (drop (L + K + 1) xs) + xs ! (L + K) \<Longrightarrow>
         \<exists>L'. L \<le> L' \<and> L' + K + 1 \<le> length xs \<and>
           nosum_while3 S (int (length xs) - 1) a (int K) sa
             (int (length xs) - 1 - int (L + K))
             (sum_list (drop (L + K + 1) xs))
             (sum_list (take (Suc K) (drop L xs)))
           = Some (int (length xs) - 1 - int (L' + K),
                   sum_list (drop (L' + K + 1) xs),
                   sum_list (take (Suc K) (drop L' xs)))
         \<and> sa + sum_list (drop (L' + K + 1) xs) < a
         \<and> a \<le> sa + sum_list (drop (L' + K + 1) xs) + xs ! (L' + K)"
proof (induction "length xs - (L + K + 1)" arbitrary: L)
  case 0
  then have "drop (L + K + 1) xs = []" by simp
  then have sc0: "sum_list (drop (L + K + 1) xs) = 0" by simp
  have "nosum_while3 S (int (length xs) - 1) a (int K) sa
             (int (length xs) - 1 - int (L + K))
             (sum_list (drop (L + K + 1) xs))
             (sum_list (take (Suc K) (drop L xs)))
           = Some (int (length xs) - 1 - int (L + K),
                   sum_list (drop (L + K + 1) xs),
                   sum_list (take (Suc K) (drop L xs)))"
    by (subst nosum_while3.simps) (use sa sc0 in simp)
  with "0.prems" sa sc0 show ?case by (intro exI [of _ L]) simp
next
  case (Suc d)
  let ?sc = "sum_list (drop (L + K + 1) xs)"
  show ?case
  proof (cases "a \<le> sa + ?sc")
    case False
    have "nosum_while3 S (int (length xs) - 1) a (int K) sa
             (int (length xs) - 1 - int (L + K)) ?sc
             (sum_list (take (Suc K) (drop L xs)))
           = Some (int (length xs) - 1 - int (L + K), ?sc,
                   sum_list (take (Suc K) (drop L xs)))"
      by (subst nosum_while3.simps) (use False in simp)
    with Suc.prems False show ?thesis by (intro exI [of _ L]) simp
  next
    case True
    from Suc(2) have lt: "L + K + 1 < length xs" by simp
    have i1: "SizeSet_index S (int (length xs) - 1 - (int (length xs) - 1 - int (Suc L + K)))
                = Some (xs ! (L + K + 1))"
      using holds_index [OF h lt] by simp
    have ltL: "L < length xs" using lt by simp
    have i2: "SizeSet_index S
                (int (length xs) - 1 - (int (length xs) - 1 - int (Suc L + K)) - int K - 1)
                = Some (xs ! L)"
      using holds_index [OF h ltL] by simp
    have kp: "int (length xs) - 1 - int (L + K) - 1 = int (length xs) - 1 - int (Suc L + K)"
      by simp
    have sc: "?sc - xs ! (L + K + 1) = sum_list (drop (Suc L + K + 1) xs)"
      using sum_drop_Suc [OF lt] by simp
    have sb: "sum_list (take (Suc K) (drop L xs)) + (xs ! (L + K + 1) - xs ! L)
                = sum_list (take (Suc K) (drop (Suc L) xs))"
      using window_slide [of L K xs] lt by simp
    have d: "d = length xs - (Suc L + K + 1)" using Suc(2) by simp
    have p1: "Suc L + K + 1 \<le> length xs" using lt by simp
    have p2: "a \<le> sa + sum_list (drop (Suc L + K + 1) xs) + xs ! (Suc L + K)"
      using True sc by simp
    from Suc(1) [OF d p1 p2] obtain L' where L': "Suc L \<le> L'" "L' + K + 1 \<le> length xs"
      "nosum_while3 S (int (length xs) - 1) a (int K) sa
             (int (length xs) - 1 - int (Suc L + K))
             (sum_list (drop (Suc L + K + 1) xs))
             (sum_list (take (Suc K) (drop (Suc L) xs)))
           = Some (int (length xs) - 1 - int (L' + K),
                   sum_list (drop (L' + K + 1) xs),
                   sum_list (take (Suc K) (drop L' xs)))"
      "sa + sum_list (drop (L' + K + 1) xs) < a"
      "a \<le> sa + sum_list (drop (L' + K + 1) xs) + xs ! (L' + K)" by blast
    have "nosum_while3 S (int (length xs) - 1) a (int K) sa
             (int (length xs) - 1 - int (L + K)) ?sc
             (sum_list (take (Suc K) (drop L xs)))
           = Some (int (length xs) - 1 - int (L' + K),
                   sum_list (drop (L' + K + 1) xs),
                   sum_list (take (Suc K) (drop L' xs)))"
      by (subst nosum_while3.simps)
         (use True in \<open>simp only: i1 i2 option.case if_True kp sc sb L'(3)\<close>)
    with L' show ?thesis by (intro exI [of _ L']) simp
  qed
qed

lemma nosum_while2_inv:
  fixes xs :: "int list"
  assumes h: "SizeSet_holds S xs"
    and srt: "sorted_wrt (\<ge>) xs"
    and nn: "\<forall>x\<in>set xs. 0 \<le> x"
  shows "L + K + 1 \<le> length xs \<Longrightarrow>
         sum_list (take K xs) + sum_list (drop (L + K + 1) xs) < a \<Longrightarrow>
         a \<le> sum_list (take K xs) + sum_list (drop (L + K + 1) xs) + xs ! (L + K) \<Longrightarrow>
         \<exists>k' sa' kp' sc' sb'.
           nosum_while2 S (int (length xs) - 1) a b (int K) (sum_list (take K xs))
             (int (length xs) - 1 - int (L + K))
             (sum_list (drop (L + K + 1) xs))
             (sum_list (take (Suc K) (drop L xs)))
           = Some (k', sa', kp', sc', sb')
         \<and> (sa' < a \<longrightarrow> b < sb' \<and> (\<exists>K' L'. nosum_state xs a K' L' sa' sc' sb'))"
proof (induction "length xs - K" arbitrary: K L rule: less_induct)
  case less
  let ?n = "int (length xs) - 1"
  let ?sa = "sum_list (take K xs)"
  let ?sc = "sum_list (drop (L + K + 1) xs)"
  let ?sb = "sum_list (take (Suc K) (drop L xs))"
  let ?kp = "?n - int (L + K)"
  have "\<forall>x\<in>set (drop (L + K + 1) xs). 0 \<le> x" using nn by (meson in_set_dropD)
  then have scnn: "0 \<le> ?sc" by (rule sum_list_nonneg_int)
  with less.prems(2) have sa: "?sa < a" by simp
  show ?case
  proof (cases "?sb \<le> b")
    case False
    have "nosum_while2 S ?n a b (int K) ?sa ?kp ?sc ?sb = Some (int K, ?sa, ?kp, ?sc, ?sb)"
      by (subst nosum_while2.simps) (use False in \<open>simp only: simp_thms if_False\<close>)
    moreover have "nosum_state xs a K L ?sa ?sc ?sb"
      using less.prems by (simp add: nosum_state_def)
    ultimately show ?thesis using False by auto
  next
    case True
    from less.prems(1) have K: "K < length xs" by simp
    have cond: "(?sa < a \<and> ?sb \<le> b) = True" using sa True by simp
    have i0: "SizeSet_index S (int K) = Some (xs ! K)" by (rule holds_index [OF h K])
    have sa': "?sa + xs ! K = sum_list (take (Suc K) xs)" using sum_take_Suc [OF K] by simp
    have k': "int K + 1 = int (Suc K)" by simp
    show ?thesis
    proof (cases "sum_list (take (Suc K) xs) < a")
      case False
      have "nosum_while2 S ?n a b (int (Suc K)) (sum_list (take (Suc K) xs)) ?kp ?sc ?sb
              = Some (int (Suc K), sum_list (take (Suc K) xs), ?kp, ?sc, ?sb)"
        by (subst nosum_while2.simps) (use False in \<open>simp only: simp_thms if_False\<close>)
      then have "nosum_while2 S ?n a b (int K) ?sa ?kp ?sc ?sb
              = Some (int (Suc K), sum_list (take (Suc K) xs), ?kp, ?sc, ?sb)"
        by (subst nosum_while2.simps)
           (use False in \<open>simp only: cond if_True i0 option.case sa' k' if_False\<close>)
      with False show ?thesis by auto
    next
      case lt: True
      have "xs ! (L + K) \<le> xs ! K" using srt less.prems(1) by (intro sorted_desc_nth) simp_all
      with less.prems(3) lt sa' have "0 < ?sc" by simp
      then have j: "L + K + 1 < length xs" by (rule drop_sum_pos_less)
      have i1: "SizeSet_index S (?n - (?n - int (L + Suc K))) = Some (xs ! (L + K + 1))"
        using holds_index [OF h j] by simp
      have kp: "?kp - 1 = ?n - int (L + Suc K)" by simp
      have sc: "?sc - xs ! (L + K + 1) = sum_list (drop (L + Suc K + 1) xs)"
        using sum_drop_Suc [OF j] by simp
      have sb: "?sb + xs ! (L + K + 1) = sum_list (take (Suc (Suc K)) (drop L xs))"
        using window_snoc [of L "Suc K" xs] j by simp
      have p1: "L + Suc K + 1 \<le> length xs" using j by simp
      have p2: "a \<le> sum_list (take (Suc K) xs) + sum_list (drop (L + Suc K + 1) xs)
                     + xs ! (L + Suc K)"
        using less.prems(3) \<open>xs ! (L + K) \<le> xs ! K\<close> sa' sc by simp
      from nosum_while3_shift [OF h lt p1 p2] obtain L' where L': "L \<le> L'"
        "L' + Suc K + 1 \<le> length xs"
        "nosum_while3 S ?n a (int (Suc K)) (sum_list (take (Suc K) xs))
            (?n - int (L + Suc K)) (sum_list (drop (L + Suc K + 1) xs))
            (sum_list (take (Suc (Suc K)) (drop L xs)))
         = Some (?n - int (L' + Suc K), sum_list (drop (L' + Suc K + 1) xs),
                 sum_list (take (Suc (Suc K)) (drop L' xs)))"
        "sum_list (take (Suc K) xs) + sum_list (drop (L' + Suc K + 1) xs) < a"
        "a \<le> sum_list (take (Suc K) xs) + sum_list (drop (L' + Suc K + 1) xs)
               + xs ! (L' + Suc K)" by blast
      have m: "length xs - Suc K < length xs - K" using K by simp
      from less.hyps [OF m L'(2) L'(4) L'(5)] obtain k' sa' kp' sc' sb' where r:
        "nosum_while2 S ?n a b (int (Suc K)) (sum_list (take (Suc K) xs))
            (?n - int (L' + Suc K)) (sum_list (drop (L' + Suc K + 1) xs))
            (sum_list (take (Suc (Suc K)) (drop L' xs)))
         = Some (k', sa', kp', sc', sb')"
        "sa' < a \<longrightarrow> b < sb' \<and> (\<exists>K' L'. nosum_state xs a K' L' sa' sc' sb')" by blast
      have "nosum_while2 S ?n a b (int K) ?sa ?kp ?sc ?sb = Some (k', sa', kp', sc', sb')"
        by (subst nosum_while2.simps)
           (use lt in \<open>simp only: cond if_True i0 option.case sa' k' kp i1 sc sb L'(3)
               prod.case r(1)\<close>)
      with r(2) show ?thesis by blast
    qed
  qed
qed

section \<open>Properties of the gap test\<close>

text \<open>Unfolding rules for evaluating the model on concrete size sets.\<close>

lemmas nosum_eval = nosum_ab_def nosum_def nosum_while1.simps nosum_while2.simps nosum_while3.simps
  SizeSet_index_def SizeSet_total_def SizeSet_card_def
lemmas holds_eval = SizeSet_holds_def SizeSet_inv_def SizeSet_elems_def

text \<open>
  Claim C4 (trivial rule).  If \<open>a \<le> 0\<close> or \<open>b \<ge> total(S)\<close>, then \<open>nosum\<close> returns false
  without reading any entry, and \<open>ap\<close> and \<open>bp\<close> keep the values they had at the call.
\<close>

theorem nosum_trivial_rule:
  "a \<le> 0 \<or> b \<ge> SizeSet_total S \<Longrightarrow> nosum S a b ap bp = Some (False, ap, bp)"
  by (simp add: nosum_def)

theorem nosum_trivial_rule_witness:
  "((0::int) \<le> 0 \<or> 5 \<ge> SizeSet_total \<lparr>ss_n = 2, ss_t = 7, ss_s = [4, 3]\<rparr>)
   \<and> nosum \<lparr>ss_n = 2, ss_t = 7, ss_s = [4, 3]\<rparr> 0 5 11 13 = Some (False, 11, 13)"
  using nosum_trivial_rule [where a = 0 and b = 5 and ap = 11 and bp = 13
      and S = "\<lparr>ss_n = 2, ss_t = 7, ss_s = [4, 3]\<rparr>"]
  by simp


lemma nosum_defined:
  fixes xs :: "int list"
  assumes h: "SizeSet_holds S xs"
    and srt: "sorted_wrt (\<ge>) xs"
    and nn: "\<forall>x\<in>set xs. 0 \<le> x"
    and a: "0 < a" and ab: "a \<le> b" and b: "b < SizeSet_total S"
  shows "\<exists>r ap' bp'. nosum S a b ap bp = Some (r, ap', bp') \<and>
           (r \<longrightarrow> b < bp' \<and> (\<exists>K L sa sc. nosum_state xs a K L sa sc bp' \<and> ap' = sa + sc))"
proof -
  let ?N = "length xs"
  let ?n = "int ?N - 1"
  from b have tot: "b < sum_list xs" by (simp add: SizeSet_total_def holds_t [OF h])
  with a ab have "xs \<noteq> []" by auto
  then have N: "?N - 1 < ?N" by simp
  have c: "\<not> (a \<le> 0 \<or> SizeSet_total S \<le> b)" using a b by simp
  have n: "SizeSet_card S - 1 = ?n" by (simp add: SizeSet_card_def holds_n [OF h])
  have e0: "sum_list (drop (Suc (?N - 1)) xs) = 0" by simp
  have "a \<le> sum_list xs" using ab tot by simp
  from nosum_while1_scan [OF h this N] a e0
  obtain L where L: "L \<le> ?N - 1"
    "nosum_while1 S ?n a (sum_list (drop (Suc (?N - 1)) xs)) (?n - int (?N - 1))
       = Some (sum_list (drop (Suc L) xs), ?n - int L)"
    "sum_list (drop (Suc L) xs) < a"
    "a \<le> sum_list (drop (Suc L) xs) + xs ! L" by auto
  have z: "?n - int (?N - 1) = 0" using N by simp
  from L(2) have w1: "nosum_while1 S ?n a 0 0 = Some (sum_list (drop (Suc L) xs), ?n - int L)"
    by (simp only: e0 z)
  have LN: "L < ?N" using L(1) N by simp
  have i: "SizeSet_index S (?n - (?n - int L)) = Some (xs ! L)"
    using holds_index [OF h LN] by simp
  have p1: "L + 0 + 1 \<le> ?N" using LN by simp
  have p2: "sum_list (take 0 xs) + sum_list (drop (L + 0 + 1) xs) < a" using L(3) by simp
  have p3: "a \<le> sum_list (take 0 xs) + sum_list (drop (L + 0 + 1) xs) + xs ! (L + 0)"
    using L(4) by simp
  from nosum_while2_inv [OF h srt nn p1 p2 p3, of b]
  obtain k' sa' kp' sc' sb' where r:
    "nosum_while2 S ?n a b (int 0) (sum_list (take 0 xs)) (?n - int (L + 0))
        (sum_list (drop (L + 0 + 1) xs)) (sum_list (take (Suc 0) (drop L xs)))
       = Some (k', sa', kp', sc', sb')"
    "sa' < a \<longrightarrow> b < sb' \<and> (\<exists>K' L'. nosum_state xs a K' L' sa' sc' sb')" by blast
  have sb: "sum_list (take (Suc 0) (drop L xs)) = xs ! L"
    using LN by (simp add: take_Suc_conv_app_nth)
  from r(1) have w2: "nosum_while2 S ?n a b 0 0 (?n - int L) (sum_list (drop (Suc L) xs)) (xs ! L)
       = Some (k', sa', kp', sc', sb')"
    by (simp add: sb)
  have "nosum S a b ap bp = Some (sa' < a, sa' + sc', sb')"
    unfolding nosum_def by (simp only: c if_False n Let_def w1 option.case prod.case i w2)
  with r(2) show ?thesis by auto
qed

lemma nosum_gap:
  fixes xs :: "int list"
  assumes srt: "sorted_wrt (\<ge>) xs"
    and nn: "\<forall>x\<in>set xs. 0 \<le> x"
    and st: "nosum_state xs a K L sa sc sb"
    and v: "v \<in> set (subset_sums xs)"
  shows "v \<le> sa + sc \<or> sb \<le> v"
proof -
  from v obtain t where t: "subseq t xs" "sum_list t = v" by (auto simp: in_subset_sums)
  from st have LK: "L + K + 1 \<le> length xs"
    and sa: "sa = sum_list (take K xs)"
    and sc: "sc = sum_list (drop (L + K + 1) xs)"
    and sb: "sb = sum_list (take (Suc K) (drop L xs))"
    by (auto simp: nosum_state_def)
  from subseq_gap [OF srt nn LK t(1)] show ?thesis
    by (simp only: sa sc sb t(2))
qed

lemma nosum_state_achievable:
  fixes xs :: "int list"
  assumes st: "nosum_state xs a K L sa sc sb"
  shows "sa + sc \<in> set (subset_sums xs)" and "sb \<in> set (subset_sums xs)"
proof -
  from st have sa: "sa = sum_list (take K xs)"
    and sc: "sc = sum_list (drop (L + K + 1) xs)"
    and sb: "sb = sum_list (take (Suc K) (drop L xs))"
    by (auto simp: nosum_state_def)
  have "subseq (drop (Suc L) (drop K xs)) (drop K xs)"
    by (rule suffix_imp_subseq) (rule suffix_drop)
  then have "subseq (take K xs @ drop (Suc L) (drop K xs)) (take K xs @ drop K xs)"
    by (simp only: subseq_append')
  then have "subseq (take K xs @ drop (L + K + 1) xs) xs" by simp
  moreover have "sum_list (take K xs @ drop (L + K + 1) xs) = sa + sc" by (simp add: sa sc)
  ultimately show "sa + sc \<in> set (subset_sums xs)" unfolding in_subset_sums by blast
  have "subseq (take (Suc K) (drop L xs)) (drop L xs)"
    by (rule prefix_imp_subseq) (rule take_is_prefix)
  moreover have "subseq (drop L xs) xs" by (rule suffix_imp_subseq) (rule suffix_drop)
  ultimately have "subseq (take (Suc K) (drop L xs)) xs" by (rule subseq_order.trans)
  then show "sb \<in> set (subset_sums xs)" unfolding in_subset_sums sb by blast
qed

text \<open>
  Claim C1 (NoSum soundness).  Let the size set hold nonnegative entries in descending
  order and let \<open>0 < a \<le> b < total(S)\<close>.  If \<open>nosum(S, a, b)\<close> returns true, then no
  sub-multiset of the entries has a sum in the half-open interval \<open>]a, b]\<close>.
\<close>

theorem nosum_sound:
  fixes xs :: "int list"
  assumes "SizeSet_holds S xs" "sorted_wrt (\<ge>) xs" "\<forall>x\<in>set xs. 0 \<le> x"
    and "0 < a" "a \<le> b" "b < SizeSet_total S"
    and res: "nosum_ab S a b = Some True"
  shows "\<forall>M. M \<subseteq># mset xs \<longrightarrow> \<not> (a < sum_mset M \<and> sum_mset M \<le> b)"
proof (intro allI impI)
  fix M
  assume M: "M \<subseteq># mset xs"
  from nosum_defined [OF assms(1-6), of 0 0] obtain r ap' bp' where r:
    "nosum S a b 0 0 = Some (r, ap', bp')"
    "r \<longrightarrow> b < bp' \<and> (\<exists>K L sa sc. nosum_state xs a K L sa sc bp' \<and> ap' = sa + sc)" by blast
  from res r(1) have "r" by (simp add: nosum_ab_def)
  with r(2) obtain K L sa sc where st: "nosum_state xs a K L sa sc bp'" and bp: "b < bp'" by blast
  from M have "sum_mset M \<in> set (subset_sums xs)" unfolding subset_sums_mset by blast
  from nosum_gap [OF assms(2,3) st this] have "sum_mset M \<le> sa + sc \<or> bp' \<le> sum_mset M" .
  moreover from st have "sa + sc < a" by (simp add: nosum_state_def)
  ultimately show "\<not> (a < sum_mset M \<and> sum_mset M \<le> b)" using bp by auto
qed

theorem nosum_sound_witness:
  "nosum_ab \<lparr>ss_n = 4, ss_t = 20, ss_s = [8, 8, 2, 2]\<rparr> 5 7 = Some True
   \<and> \<not> (\<exists>M. M \<subseteq># mset [8, 8, 2, 2 :: int] \<and> 5 < sum_mset M \<and> sum_mset M \<le> 7)"
proof -
  let ?S = "\<lparr>ss_n = 4, ss_t = 20, ss_s = [8, 8, 2, 2]\<rparr>"
  have h: "SizeSet_holds ?S [8, 8, 2, 2]" by (simp add: holds_eval)
  have s: "sorted_wrt (\<ge>) [8, 8, 2, 2 :: int]" and n: "\<forall>x\<in>set [8, 8, 2, 2 :: int]. 0 \<le> x"
    by simp_all
  have ab: "(0::int) < 5" "(5::int) \<le> 7" "7 < SizeSet_total ?S"
    by (simp_all add: SizeSet_total_def)
  have e: "nosum_ab ?S 5 7 = Some True" by (simp add: nosum_eval)
  from nosum_sound [OF h s n ab e] e show ?thesis by blast
qed

text \<open>
  Claim C2 (NoSum completeness).  Let the size set hold nonnegative entries in descending
  order and let \<open>a \<le> b\<close>.  If the enumeration of the sub-multiset sums finds one in
  \<open>]a, b]\<close>, then \<open>nosum(S, a, b)\<close> returns false.
\<close>

theorem nosum_complete:
  fixes xs :: "int list"
  assumes "SizeSet_holds S xs" "sorted_wrt (\<ge>) xs" "\<forall>x\<in>set xs. 0 \<le> x"
    and ab: "a \<le> b"
    and ex: "\<exists>v\<in>set (subset_sums xs). a < v \<and> v \<le> b"
  shows "nosum_ab S a b = Some False"
proof (cases "a \<le> 0 \<or> SizeSet_total S \<le> b")
  case True
  then show ?thesis by (simp add: nosum_ab_def nosum_def)
next
  case False
  then have a: "0 < a" and b: "b < SizeSet_total S" by simp_all
  from nosum_defined [OF assms(1-3) a ab b, of 0 0] obtain r ap' bp' where r:
    "nosum S a b 0 0 = Some (r, ap', bp')"
    "r \<longrightarrow> b < bp' \<and> (\<exists>K L sa sc. nosum_state xs a K L sa sc bp' \<and> ap' = sa + sc)" by blast
  have "\<not> r"
  proof
    assume r
    with r(2) obtain K L sa sc where st: "nosum_state xs a K L sa sc bp'" and bp: "b < bp'"
      by blast
    from ex obtain v where v: "v \<in> set (subset_sums xs)" "a < v" "v \<le> b" by blast
    from nosum_gap [OF assms(2,3) st v(1)] have "v \<le> sa + sc \<or> bp' \<le> v" .
    moreover from st have "sa + sc < a" by (simp add: nosum_state_def)
    ultimately show False using v bp by auto
  qed
  with r(1) show ?thesis by (simp add: nosum_ab_def)
qed

theorem nosum_complete_witness:
  "(\<exists>v\<in>set (subset_sums [6, 4, 2, 1]). 7 < v \<and> v \<le> 8)
   \<and> nosum_ab \<lparr>ss_n = 4, ss_t = 13, ss_s = [6, 4, 2, 1]\<rparr> 7 8 = Some False"
  using nosum_complete [where S = "\<lparr>ss_n = 4, ss_t = 13, ss_s = [6, 4, 2, 1]\<rparr>"
      and xs = "[6, 4, 2, 1]" and a = 7 and b = 8]
  by (simp add: holds_eval subset_sums_def)

text \<open>
  Claim C3 (NoSum output bounds).  Under the same conditions as C1, when the
  five-argument \<open>nosum\<close> returns true, the produced \<open>ap\<close> is an achievable subset sum
  with \<open>ap \<le> a\<close>, the produced \<open>bp\<close> is an achievable subset sum with \<open>bp > b\<close>,
  and no achievable subset sum lies strictly between \<open>ap\<close> and \<open>bp\<close>.
\<close>

theorem nosum_output_bounds:
  fixes xs :: "int list"
  assumes "SizeSet_holds S xs" "sorted_wrt (\<ge>) xs" "\<forall>x\<in>set xs. 0 \<le> x"
    and "0 < a" "a \<le> b" "b < SizeSet_total S"
    and res: "nosum S a b ap0 bp0 = Some (True, ap, bp)"
  shows "ap \<in> set (subset_sums xs) \<and> ap \<le> a \<and> bp \<in> set (subset_sums xs) \<and> b < bp
       \<and> (\<forall>v\<in>set (subset_sums xs). \<not> (ap < v \<and> v < bp))"
proof -
  from nosum_defined [OF assms(1-6), of ap0 bp0] res
  obtain K L sa sc where st: "nosum_state xs a K L sa sc bp" and ap: "ap = sa + sc"
    and bp: "b < bp" by auto
  from st have "sa + sc < a" by (simp add: nosum_state_def)
  moreover have "\<forall>v\<in>set (subset_sums xs). \<not> (ap < v \<and> v < bp)"
    using nosum_gap [OF assms(2,3) st] ap by fastforce
  ultimately show ?thesis using nosum_state_achievable [OF st] ap bp by simp
qed

theorem nosum_output_bounds_witness:
  "nosum \<lparr>ss_n = 3, ss_t = 9, ss_s = [3, 3, 3]\<rparr> 4 5 0 0 = Some (True, 3, 6)
   \<and> 3 \<in> set (subset_sums [3, 3, 3]) \<and> 6 \<in> set (subset_sums [3, 3, 3])
   \<and> \<not> (\<exists>v\<in>set (subset_sums [3, 3, 3]). 3 < v \<and> v < 6)"
proof -
  let ?S = "\<lparr>ss_n = 3, ss_t = 9, ss_s = [3, 3, 3]\<rparr>"
  have h: "SizeSet_holds ?S [3, 3, 3]" by (simp add: holds_eval)
  have s: "sorted_wrt (\<ge>) [3, 3, 3 :: int]" and n: "\<forall>x\<in>set [3, 3, 3 :: int]. 0 \<le> x"
    by simp_all
  have ab: "(0::int) < 4" "(4::int) \<le> 5" "5 < SizeSet_total ?S"
    by (simp_all add: SizeSet_total_def)
  have e: "nosum ?S 4 5 0 0 = Some (True, 3, 6)" by (simp add: nosum_eval)
  from nosum_output_bounds [OF h s n ab e] e show ?thesis by blast
qed

text \<open>
  Claim C10 (index safety and termination of \<open>nosum\<close>).  Every read of the model is
  guarded: an index outside \<open>[0, card(S))\<close> yields \<open>None\<close>, and the three loops are
  total functions.  Under the conditions of C1 the result is \<open>Some\<close>: the scan performs
  finitely many reads \<open>s[n-kp]\<close>, \<open>s[k]\<close> and \<open>s[n-kp-k-1]\<close>, each inside the valid
  range, and both inner loops and the main loop exit.
\<close>

theorem nosum_index_safe:
  fixes xs :: "int list"
  assumes "SizeSet_holds S xs" "sorted_wrt (\<ge>) xs" "\<forall>x\<in>set xs. 0 \<le> x"
    and "0 < a" "a \<le> b" "b < SizeSet_total S"
  shows "\<exists>r. nosum S a b ap bp = Some r"
  using nosum_defined [OF assms, of ap bp] by blast



theorem nosum_index_safe_witness:
  "\<exists>r. nosum \<lparr>ss_n = 4, ss_t = 12, ss_s = [5, 3, 3, 1]\<rparr> 2 7 0 0 = Some r"
  using nosum_index_safe [where S = "\<lparr>ss_n = 4, ss_t = 12, ss_s = [5, 3, 3, 1]\<rparr>"
      and xs = "[5, 3, 3, 1]" and a = 2 and b = 7 and ap = 0 and bp = 0]
  by (simp add: holds_eval SizeSet_total_def)

section \<open>Properties of the size set with one entry taken out\<close>










section \<open>Values inside the range of int\<close>

lemma wrap_int_id: "is_int x \<Longrightarrow> wrap_int x = x"
  by (simp add: is_int_def wrap_int_def INT_MIN_def INT_MAX_def)

lemma int_add_id: "is_int (a + b) \<Longrightarrow> int_add a b = a + b"
  by (simp add: int_add_def wrap_int_id)

lemma int_sub_id: "is_int (a - b) \<Longrightarrow> int_sub a b = a - b"
  by (simp add: int_sub_def wrap_int_id)

lemma int_sums_fit_nonneg:
  "\<forall>x\<in>set xs. 0 \<le> x \<Longrightarrow> 0 \<le> t \<Longrightarrow> t + sum_list xs \<le> INT_MAX \<Longrightarrow> int_sums_fit t xs"
proof (induction xs arbitrary: t)
  case Nil
  then show ?case by simp
next
  case (Cons x xs)
  have "0 \<le> sum_list xs" using Cons.prems(1) by (intro sum_list_nonneg_int) simp
  with Cons.prems have "is_int (t + x)" by (simp add: is_int_def INT_MIN_def)
  moreover have "int_sums_fit (t + x) xs"
    using Cons.prems by (intro Cons.IH) (simp_all add: add.assoc)
  ultimately show ?case by simp
qed

section \<open>Properties of the propagator state\<close>

lemma Pack_total_loop_sum:
  "i \<le> length bs \<Longrightarrow> int_sums_fit t (map Item_size (drop i bs)) \<Longrightarrow>
     Pack_total_loop bs (int i) t = t + sum_list (map Item_size (drop i bs))"
proof (induction "length bs - i" arbitrary: i t)
  case 0
  then have "i = length bs" by simp
  then show ?case by (subst Pack_total_loop.simps) simp
next
  case (Suc d)
  then have lt: "i < length bs" by simp
  have d: "d = length bs - Suc i" using Suc(2) by simp
  have le: "Suc i \<le> length bs" using lt by simp
  have dr: "drop i bs = bs ! i # drop (Suc i) bs" using lt by (simp add: Cons_nth_drop_Suc)
  from Suc.prems(2) have fit: "is_int (t + Item_size (bs ! i))"
    and fits: "int_sums_fit (t + Item_size (bs ! i)) (map Item_size (drop (Suc i) bs))"
    by (simp_all add: dr)
  from Suc(1) [OF d le fits] have IH: "Pack_total_loop bs (int (Suc i)) (t + Item_size (bs ! i))
      = t + Item_size (bs ! i) + sum_list (map Item_size (drop (Suc i) bs))" .
  have s: "int i + 1 = int (Suc i)" by simp
  have e: "sum_list (map Item_size (drop i bs))
      = Item_size (bs ! i) + sum_list (map Item_size (drop (Suc i) bs))" by (simp add: dr)
  have "Pack_total_loop bs (int i) t
      = Pack_total_loop bs (int i + 1) (int_add t (Item_size (bs ! nat (int i))))"
    by (subst Pack_total_loop.simps) (use lt in simp)
  also have "\<dots> = Pack_total_loop bs (int (Suc i)) (t + Item_size (bs ! i))"
    by (simp only: s nat_int int_add_id [OF fit])
  also note IH
  finally show ?case by (simp only: e add.assoc)
qed

text \<open>
  Claim C9 (total-size invariant of Pack), as the constructor computes it.  If the
  running total of the item sizes never leaves the range of \<open>int\<close> (as it does not when
  the sizes are nonnegative and their sum is at most the largest \<open>int\<close>), then after
  construction from the items \<open>bs\<close> the field \<open>t\<close> is the sum of the item sizes; the
  cloning constructor copies \<open>t\<close> for every propagator, so the clone's \<open>t\<close> is the
  original's, and it is again the sum of the sizes of the clone's items.
\<close>

theorem Pack_total_size:
  assumes "int_sums_fit 0 (map Item_size bs0)"
  shows "pk_t (Pack_post l0 bs0) = sum_list (map Item_size bs0)
   \<and> pk_t (Pack_copy updl updx p) = pk_t p
   \<and> pk_t (Pack_copy updl updx (Pack_post l0 bs0))
       = sum_list (map Item_size (pk_bs (Pack_copy updl updx (Pack_post l0 bs0))))"
proof -
  have a: "pk_t (Pack_post l0 bs0) = sum_list (map Item_size bs0)"
    using Pack_total_loop_sum [of 0 bs0 0] assms by (simp add: Pack_post_def)
  have b: "pk_t (Pack_copy updl updx q) = pk_t q" for q
    by (simp add: Pack_copy_def)
  have "Item_size (Item_update updx i) = Item_size i" for i
    by (simp add: Item_size_def Item_update_def)
  then have "map Item_size (map (Item_update updx) bs0) = map Item_size bs0"
    by (induction bs0) simp_all
  then have c: "sum_list (map Item_size (pk_bs (Pack_copy updl updx (Pack_post l0 bs0))))
        = sum_list (map Item_size bs0)"
    by (simp only: Pack_copy_def Pack_post_def Pack.simps)
  show ?thesis by (simp only: a b c)
qed

theorem Pack_total_size_witness:
  "int_sums_fit 0 (map Item_size [\<lparr>it_x = (), it_s = 4\<rparr>, \<lparr>it_x = (), it_s = 3\<rparr>,
                                  \<lparr>it_x = (), it_s = 3\<rparr>])
   \<and> pk_t (Pack_post ([] :: unit list) [\<lparr>it_x = (), it_s = 4\<rparr>, \<lparr>it_x = (), it_s = 3\<rparr>,
                                        \<lparr>it_x = (), it_s = 3\<rparr>]) = 10
   \<and> pk_t (Pack_copy id id (Pack_post ([] :: unit list)
        [\<lparr>it_x = (), it_s = 4\<rparr>, \<lparr>it_x = (), it_s = 3\<rparr>, \<lparr>it_x = (), it_s = 3\<rparr>])) = 10"
proof -
  let ?bs = "[\<lparr>it_x = (), it_s = 4\<rparr>, \<lparr>it_x = (), it_s = 3\<rparr>, \<lparr>it_x = (), it_s = 3\<rparr>]"
  have f: "int_sums_fit 0 (map Item_size ?bs)"
    by (simp add: Item_size_def is_int_def INT_MIN_def INT_MAX_def)
  from Pack_total_size [OF f, of "[] :: unit list" id id "Pack_post ([] :: unit list) ?bs"]
  show ?thesis using f by (simp add: Item_size_def)
qed

text \<open>
  Claim C9 as stated, without a bound on the sizes, at two items of sizes 2147483647 and
  1.  The second addition leaves the range of \<open>int\<close>; the field \<open>t\<close> holds
  \<open>-2147483648\<close>, and the sum of the sizes is 2147483648.
\<close>

theorem Pack_total_size_overflow:
  "pk_t (Pack_post ([] :: unit list) [\<lparr>it_x = (), it_s = 2147483647\<rparr>, \<lparr>it_x = (), it_s = 1\<rparr>])
     = - 2147483648
   \<and> sum_list (map Item_size [\<lparr>it_x = (), it_s = 2147483647\<rparr>, \<lparr>it_x = (), it_s = 1\<rparr>])
     = 2147483648"
  by (simp add: Pack_post_def Pack_total_loop.simps Item_size_def int_add_def wrap_int_def)

section \<open>Properties of the dual-feasibility sampler\<close>

lemma dff_lambdas_bounds:
  "x \<in> set (dff_lambdas lambda hi lStep) \<Longrightarrow> lambda \<le> x \<and> x < hi"
proof (induction lambda hi lStep rule: dff_lambdas.induct)
  case (1 lambda hi lStep)
  show ?case
  proof (cases "lambda < hi \<and> 0 < lStep")
    case True
    then have e: "dff_lambdas lambda hi lStep = lambda # dff_lambdas (lambda + lStep) hi lStep"
      by (subst dff_lambdas.simps) simp
    from "1.prems" e have "x = lambda \<or> x \<in> set (dff_lambdas (lambda + lStep) hi lStep)" by simp
    then show ?thesis
    proof
      assume "x = lambda" with True show ?thesis by simp
    next
      assume "x \<in> set (dff_lambdas (lambda + lStep) hi lStep)"
      from "1.IH" [OF True this] True show ?thesis by simp
    qed
  next
    case False
    then have "dff_lambdas lambda hi lStep = []" by (subst dff_lambdas.simps) simp
    with "1.prems" show ?thesis by simp
  qed
qed

lemma dff_lambdas_spaced:
  "dff_lambdas lambda hi lStep
     = map (\<lambda>i. lambda + int i * lStep) [0..<length (dff_lambdas lambda hi lStep)]"
proof (induction lambda hi lStep rule: dff_lambdas.induct)
  case (1 lambda hi lStep)
  show ?case
  proof (cases "lambda < hi \<and> 0 < lStep")
    case True
    then have e: "dff_lambdas lambda hi lStep = lambda # dff_lambdas (lambda + lStep) hi lStep"
      by (subst dff_lambdas.simps) simp
    let ?r = "dff_lambdas (lambda + lStep) hi lStep"
    have "map (\<lambda>i. lambda + int i * lStep) [0..<Suc (length ?r)]
        = lambda # map (\<lambda>i. lambda + int (Suc i) * lStep) [0..<length ?r]"
      by (simp add: upt_conv_Cons map_Suc_upt [symmetric] del: upt_Suc)
    also have "map (\<lambda>i. lambda + int (Suc i) * lStep) [0..<length ?r]
        = map (\<lambda>i. lambda + lStep + int i * lStep) [0..<length ?r]"
      by (simp add: algebra_simps)
    also have "\<dots> = ?r" using "1.IH" [OF True] by simp
    finally show ?thesis by (simp add: e)
  next
    case False
    then have "dff_lambdas lambda hi lStep = []" by (subst dff_lambdas.simps) simp
    then show ?thesis by simp
  qed
qed

lemma fold_max_Max:
  fixes acc :: int
  shows "fold max bs acc = Max (set (acc # bs))"
  by (rule Max.set_eq_fold [symmetric])

lemma dff_loop_those:
  "(lambda < hi \<longrightarrow> 0 < lStep) \<Longrightarrow> INT_MIN \<le> lambda \<Longrightarrow>
   \<forall>x\<in>set (dff_lambdas lambda hi lStep). x + lStep \<le> INT_MAX \<Longrightarrow>
   dff_loop f weights capacity lambda hi lStep acc =
     (case those (map (calcDffLowerboundSingleLambda f weights capacity)
                   (dff_lambdas lambda hi lStep)) of
        None \<Rightarrow> None
      | Some bounds \<Rightarrow> Some (fold max bounds acc))"
proof (induction lambda hi lStep arbitrary: acc rule: dff_lambdas.induct)
  case (1 lambda hi lStep)
  show ?case
  proof (cases "lambda < hi")
    case False
    then have "dff_lambdas lambda hi lStep = []" by (subst dff_lambdas.simps) simp
    moreover have "dff_loop f weights capacity lambda hi lStep acc = Some acc"
      by (subst dff_loop.simps) (use False in simp)
    ultimately show ?thesis by simp
  next
    case True
    with "1.prems" have st: "0 < lStep" by simp
    with True have c: "lambda < hi \<and> 0 < lStep" by simp
    then have e: "dff_lambdas lambda hi lStep = lambda # dff_lambdas (lambda + lStep) hi lStep"
      by (subst dff_lambdas.simps) simp
    from "1.prems"(3) e have up: "lambda + lStep \<le> INT_MAX"
      and rest: "\<forall>x\<in>set (dff_lambdas (lambda + lStep) hi lStep). x + lStep \<le> INT_MAX"
      by simp_all
    have lo: "INT_MIN \<le> lambda + lStep" using "1.prems"(2) st by simp
    have ia: "int_add lambda lStep = lambda + lStep"
      using up lo by (intro int_add_id) (simp add: is_int_def)
    show ?thesis
    proof (cases "calcDffLowerboundSingleLambda f weights capacity lambda")
      case None
      then have "dff_loop f weights capacity lambda hi lStep acc = None"
        by (subst dff_loop.simps) (use c in simp)
      with None show ?thesis by (simp add: e)
    next
      case (Some lb)
      have p: "lambda + lStep < hi \<longrightarrow> 0 < lStep" using st by simp
      have "dff_loop f weights capacity lambda hi lStep acc
          = dff_loop f weights capacity (lambda + lStep) hi lStep (max acc lb)"
        by (subst dff_loop.simps) (use c Some ia in simp)
      also note "1.IH" [OF c p lo rest, of "max acc lb"]
      finally show ?thesis by (simp add: e Some max.commute split: option.splits)
    qed
  qed
qed

lemma int_div_le_nonneg:
  fixes a k :: int
  shows "0 \<le> a \<Longrightarrow> a div k \<le> a"
  by (cases "a = 0") (simp_all add: int_div_le_self)

lemma ceil_div_pp_step:
  assumes "0 \<le> nLambdaSamples"
  shows "\<exists>lStep. ceil_div_pp (hi - lo + 1) (nLambdaSamples + 1) = Some lStep
           \<and> (lo + lStep < hi \<longrightarrow> 0 < lStep)"
proof -
  let ?y = "nLambdaSamples + 1"
  let ?x = "hi - lo + 1"
  let ?s = "- ((- ?x) div ?y)"
  have y: "0 < ?y" using assms by simp
  then have e: "ceil_div_pp ?x ?y = Some ?s" by (simp add: ceil_div_pp_def)
  have "0 < ?s" if lt: "lo + ?s < hi"
  proof (cases "0 < ?x")
    case True
    then have "- ?x < 0" by simp
    then have "(- ?x) div ?y < 0" using y by (rule div_neg_pos_less0)
    then show ?thesis by simp
  next
    case False
    then have "0 \<le> - ?x" by simp
    then have "(- ?x) div ?y \<le> - ?x" by (rule int_div_le_nonneg)
    with lt show ?thesis by simp
  qed
  with e show ?thesis by blast
qed

text \<open>The bound at one parameter.\<close>

lemma ceiling_divide_int:
  "\<lceil>real_of_int a / real_of_int b\<rceil> = - ((- a) div b)"
proof -
  have "- (real_of_int a / real_of_int b) = real_of_int (- a) / real_of_int b" by simp
  then have "\<lfloor>- (real_of_int a / real_of_int b)\<rfloor> = (- a) div b"
    by (simp only: floor_divide_of_int_eq)
  then show ?thesis by (simp only: ceiling_def)
qed

lemma sumTransformedWeights_undefined:
  "those (map (\<lambda>w. f w x c) ws) = None \<Longrightarrow> sumTransformedWeights f ws x c acc = None"
proof (induction ws arbitrary: acc)
  case Nil
  then show ?case by simp
next
  case (Cons w ws)
  then show ?case by (cases "f w x c") (auto split: option.splits)
qed

lemma sumTransformedWeights_sum:
  "those (map (\<lambda>w. f w x c) ws) = Some vs \<Longrightarrow> int_sums_fit acc vs \<Longrightarrow>
     sumTransformedWeights f ws x c acc = Some (acc + sum_list vs)"
proof (induction ws arbitrary: acc vs)
  case Nil
  then show ?case by simp
next
  case (Cons w ws)
  from Cons.prems(1) obtain v vs' where v: "f w x c = Some v"
    and t: "those (map (\<lambda>w. f w x c) ws) = Some vs'" and vs: "vs = v # vs'"
    by (auto split: option.splits)
  from Cons.prems(2) vs have f1: "is_int (acc + v)" and f2: "int_sums_fit (acc + v) vs'"
    by simp_all
  from Cons.IH [OF t f2] show ?case by (simp add: v vs int_add_id [OF f1] add.assoc)
qed

lemma calcDffLowerboundSingleLambda_ceiling:
  assumes "those (map (\<lambda>w. f w x c) ws) = Some vs" "int_sums_fit 0 vs"
  shows "calcDffLowerboundSingleLambda f ws c x
         = (case f c x c of
              None \<Rightarrow> None
            | Some tc \<Rightarrow> if tc = 0 then None
                         else Some \<lceil>real_of_int (sum_list vs) / real_of_int tc\<rceil>)"
  using sumTransformedWeights_sum [where f = f and x = x and c = c and ws = ws and vs = vs
      and acc = 0, OF assms]
  by (simp add: calcDffLowerboundSingleLambda_def ceil_div_pp_def ceiling_divide_int
        split: option.splits)

lemma calcDffLowerboundSingleLambda_undefined:
  assumes "those (map (\<lambda>w. f w x c) ws) = None"
  shows "calcDffLowerboundSingleLambda f ws c x = None"
  using sumTransformedWeights_undefined [where f = f and x = x and c = c and ws = ws
      and acc = 0, OF assms]
  by (simp add: calcDffLowerboundSingleLambda_def)

lemma calcDffLowerbound_unfold:
  assumes nS: "0 \<le> nLambdaSamples"
    and r: "r = dff_range l capacity nNotZeroWeights maxWeight sanitize"
    and w: "is_int (lr_max r - lr_min r)" "is_int (lr_max r - lr_min r + 1)"
  shows "\<exists>lStep.
      ceil_div_pp (lr_max r - lr_min r + 1) (nLambdaSamples + 1) = Some lStep
    \<and> (is_int (lr_min r + lStep)
         \<and> (\<forall>x\<in>set (dff_lambdas (lr_min r + lStep) (lr_max r) lStep). x + lStep \<le> INT_MAX) \<longrightarrow>
       calcDffLowerbound f l nLambdaSamples weights capacity nNotZeroWeights maxWeight sanitize
        = (case those (map (calcDffLowerboundSingleLambda f weights capacity)
                 (dff_lambdas (lr_min r + lStep) (lr_max r) lStep)) of
             None \<Rightarrow> None
           | Some bounds \<Rightarrow> Some (Max (set (0 # bounds)))))"
proof -
  from ceil_div_pp_step [OF nS, of "lr_max r" "lr_min r"] obtain lStep where
    s: "ceil_div_pp (lr_max r - lr_min r + 1) (nLambdaSamples + 1) = Some lStep"
    and p: "lr_min r + lStep < lr_max r \<longrightarrow> 0 < lStep" by blast
  have wd: "int_add (int_sub (lr_max r) (lr_min r)) 1 = lr_max r - lr_min r + 1"
    by (simp only: int_sub_id [OF w(1)] int_add_id [OF w(2)])
  have "calcDffLowerbound f l nLambdaSamples weights capacity nNotZeroWeights maxWeight sanitize
        = (case those (map (calcDffLowerboundSingleLambda f weights capacity)
                 (dff_lambdas (lr_min r + lStep) (lr_max r) lStep)) of
             None \<Rightarrow> None
           | Some bounds \<Rightarrow> Some (Max (set (0 # bounds))))"
    if i: "is_int (lr_min r + lStep)"
      and u: "\<forall>x\<in>set (dff_lambdas (lr_min r + lStep) (lr_max r) lStep). x + lStep \<le> INT_MAX"
  proof -
    have lo: "INT_MIN \<le> lr_min r + lStep" using i by (simp add: is_int_def)
    have "calcDffLowerbound f l nLambdaSamples weights capacity nNotZeroWeights maxWeight
            sanitize
        = (case ceil_div_pp (int_add (int_sub (lr_max r) (lr_min r)) 1) (nLambdaSamples + 1) of
             None \<Rightarrow> None
           | Some lStep \<Rightarrow>
               dff_loop f weights capacity (int_add (lr_min r) lStep) (lr_max r) lStep 0)"
      unfolding r calcDffLowerbound_def dff_range_def Let_def by (rule refl)
    also have "\<dots> = dff_loop f weights capacity (lr_min r + lStep) (lr_max r) lStep 0"
      by (simp only: wd s int_add_id [OF i] option.case)
    also note dff_loop_those [OF p lo u]
    finally show ?thesis by (simp only: fold_max_Max)
  qed
  with s show ?thesis by blast
qed

text \<open>Unfolding rules for evaluating the sampler on concrete inputs.\<close>

lemmas dff_eval = calcDffLowerbound_def calcDffLowerboundSingleLambda_def dff_loop.simps
  dff_lambdas.simps sanitizeLambdaRange_def dff_range_def ceil_div_pp_def c_div_def c_mod_def
  INT_MAX_def INT_MIN_def wrap_int_def int_add_def int_sub_def int_mul_def is_int_def
  signed_divide_int_def signed_modulo_int_def Let_def

lemma calcDffLowerbound_samples:
  assumes nS: "0 \<le> nLambdaSamples"
    and r: "r = dff_range l capacity nNotZeroWeights maxWeight sanitize"
    and w: "is_int (lr_max r - lr_min r)" "is_int (lr_max r - lr_min r + 1)"
  shows "\<exists>lStep lambdas.
      ceil_div_pp (lr_max r - lr_min r + 1) (nLambdaSamples + 1) = Some lStep
    \<and> lambdas = dff_lambdas (lr_min r + lStep) (lr_max r) lStep
    \<and> lambdas = map (\<lambda>i. lr_min r + (int i + 1) * lStep) [0..<length lambdas]
    \<and> (\<forall>x\<in>set lambdas. lr_min r < x \<and> x < lr_max r)
    \<and> (\<forall>x. those (map (\<lambda>w. f w x capacity) weights) = None \<longrightarrow>
          calcDffLowerboundSingleLambda f weights capacity x = None)
    \<and> (\<forall>x vs. those (map (\<lambda>w. f w x capacity) weights) = Some vs \<and> int_sums_fit 0 vs \<longrightarrow>
          calcDffLowerboundSingleLambda f weights capacity x
            = (case f capacity x capacity of
                 None \<Rightarrow> None
               | Some tc \<Rightarrow> if tc = 0 then None
                            else Some \<lceil>real_of_int (sum_list vs) / real_of_int tc\<rceil>))
    \<and> (is_int (lr_min r + lStep) \<and> (\<forall>x\<in>set lambdas. x + lStep \<le> INT_MAX) \<longrightarrow>
          calcDffLowerbound f l nLambdaSamples weights capacity nNotZeroWeights maxWeight sanitize
            = (case those (map (calcDffLowerboundSingleLambda f weights capacity) lambdas) of
                 None \<Rightarrow> None
               | Some bounds \<Rightarrow> Some (Max (set (0 # bounds))))
        \<and> (\<forall>bounds. those (map (calcDffLowerboundSingleLambda f weights capacity) lambdas)
                        = Some bounds \<and> (\<forall>b\<in>set bounds. 0 \<le> b) \<longrightarrow>
              calcDffLowerbound f l nLambdaSamples weights capacity nNotZeroWeights maxWeight
                sanitize = Some (if bounds = [] then 0 else Max (set bounds))))"
proof -
  from calcDffLowerbound_unfold [OF nS r w, of f weights]
  obtain lStep where
    s: "ceil_div_pp (lr_max r - lr_min r + 1) (nLambdaSamples + 1) = Some lStep"
    and res: "is_int (lr_min r + lStep)
         \<and> (\<forall>x\<in>set (dff_lambdas (lr_min r + lStep) (lr_max r) lStep). x + lStep \<le> INT_MAX) \<longrightarrow>
       calcDffLowerbound f l nLambdaSamples weights capacity nNotZeroWeights maxWeight sanitize
        = (case those (map (calcDffLowerboundSingleLambda f weights capacity)
                 (dff_lambdas (lr_min r + lStep) (lr_max r) lStep)) of
             None \<Rightarrow> None
           | Some bounds \<Rightarrow> Some (Max (set (0 # bounds))))" by blast
  define lambdas where "lambdas = dff_lambdas (lr_min r + lStep) (lr_max r) lStep"
  have sp: "lambdas = map (\<lambda>i. lr_min r + (int i + 1) * lStep) [0..<length lambdas]"
    unfolding lambdas_def
    by (subst dff_lambdas_spaced) (simp add: algebra_simps)
  have pos: "0 < lStep" if "x \<in> set lambdas" for x
  proof (rule ccontr)
    assume "\<not> 0 < lStep"
    then have "dff_lambdas (lr_min r + lStep) (lr_max r) lStep = []"
      by (subst dff_lambdas.simps) simp
    with that show False by (simp add: lambdas_def)
  qed
  have ins: "\<forall>x\<in>set lambdas. lr_min r < x \<and> x < lr_max r"
  proof
    fix x assume x: "x \<in> set lambdas"
    from dff_lambdas_bounds [OF x [unfolded lambdas_def]] pos [OF x]
    show "lr_min r < x \<and> x < lr_max r" by simp
  qed
  have und: "\<forall>x. those (map (\<lambda>w. f w x capacity) weights) = None \<longrightarrow>
          calcDffLowerboundSingleLambda f weights capacity x = None"
    using calcDffLowerboundSingleLambda_undefined [where f = f and c = capacity and ws = weights]
    by blast
  have one: "\<forall>x vs. those (map (\<lambda>w. f w x capacity) weights) = Some vs \<and> int_sums_fit 0 vs \<longrightarrow>
          calcDffLowerboundSingleLambda f weights capacity x
            = (case f capacity x capacity of
                 None \<Rightarrow> None
               | Some tc \<Rightarrow> if tc = 0 then None
                            else Some \<lceil>real_of_int (sum_list vs) / real_of_int tc\<rceil>)"
    using calcDffLowerboundSingleLambda_ceiling [where f = f and c = capacity and ws = weights]
    by blast
  have loop: "calcDffLowerbound f l nLambdaSamples weights capacity nNotZeroWeights maxWeight
              sanitize
            = (case those (map (calcDffLowerboundSingleLambda f weights capacity) lambdas) of
                 None \<Rightarrow> None
               | Some bounds \<Rightarrow> Some (Max (set (0 # bounds))))
        \<and> (\<forall>bounds. those (map (calcDffLowerboundSingleLambda f weights capacity) lambdas)
                        = Some bounds \<and> (\<forall>b\<in>set bounds. 0 \<le> b) \<longrightarrow>
              calcDffLowerbound f l nLambdaSamples weights capacity nNotZeroWeights maxWeight
                sanitize = Some (if bounds = [] then 0 else Max (set bounds)))"
    if fit: "is_int (lr_min r + lStep) \<and> (\<forall>x\<in>set lambdas. x + lStep \<le> INT_MAX)"
  proof -
    from fit have "is_int (lr_min r + lStep)
         \<and> (\<forall>x\<in>set (dff_lambdas (lr_min r + lStep) (lr_max r) lStep). x + lStep \<le> INT_MAX)"
      unfolding lambdas_def .
    with res have "calcDffLowerbound f l nLambdaSamples weights capacity nNotZeroWeights
            maxWeight sanitize
        = (case those (map (calcDffLowerboundSingleLambda f weights capacity)
                 (dff_lambdas (lr_min r + lStep) (lr_max r) lStep)) of
             None \<Rightarrow> None
           | Some bounds \<Rightarrow> Some (Max (set (0 # bounds))))" by (rule mp)
    then have rr: "calcDffLowerbound f l nLambdaSamples weights capacity nNotZeroWeights
            maxWeight sanitize
        = (case those (map (calcDffLowerboundSingleLambda f weights capacity) lambdas) of
             None \<Rightarrow> None
           | Some bounds \<Rightarrow> Some (Max (set (0 # bounds))))"
      unfolding lambdas_def .
    have mx: "calcDffLowerbound f l nLambdaSamples weights capacity nNotZeroWeights maxWeight
                sanitize = Some (if bounds = [] then 0 else Max (set bounds))"
      if b: "those (map (calcDffLowerboundSingleLambda f weights capacity) lambdas) = Some bounds"
        and nn: "\<forall>b\<in>set bounds. 0 \<le> b" for bounds
    proof (cases "bounds = []")
      case True
      with rr b show ?thesis by simp
    next
      case False
      have "Max (set bounds) \<in> set bounds" using False by (intro Max_in) simp_all
      with nn have "0 \<le> Max (set bounds)" by blast
      then have "Max (set (0 # bounds)) = Max (set bounds)" using False by (simp add: max_def)
      with rr b False show ?thesis by simp
    qed
    from rr mx show ?thesis by blast
  qed
  from lambdas_def s sp ins und one loop show ?thesis
    by (intro exI [of _ lStep] exI [of _ lambdas] conjI impI) blast+
qed

text \<open>
  The width, the first parameter and every increment stay inside \<open>int\<close> when the
  range lies between 0 and \<open>2^30\<close>, as a range does that is sanitised with a product
  of at least 2 and has a lower end in that interval.
\<close>

lemma dff_steps_fit:
  assumes nS: "0 \<le> nLambdaSamples"
    and lo: "0 \<le> lo" "lo \<le> 1073741824" and hi: "- 1 \<le> hi" "hi \<le> 1073741823"
    and s: "ceil_div_pp (hi - lo + 1) (nLambdaSamples + 1) = Some lStep"
  shows "is_int (hi - lo) \<and> is_int (hi - lo + 1) \<and> is_int (lo + lStep)
       \<and> (\<forall>x\<in>set (dff_lambdas (lo + lStep) hi lStep). x + lStep \<le> INT_MAX)"
proof -
  let ?y = "nLambdaSamples + 1"
  let ?x = "hi - lo + 1"
  have y: "0 < ?y" using nS by simp
  from s y have st: "lStep = - ((- ?x) div ?y)" by (simp add: ceil_div_pp_def)
  have b: "(0 \<le> ?x \<longrightarrow> 0 \<le> lStep \<and> lStep \<le> ?x) \<and> (?x < 0 \<longrightarrow> ?x \<le> lStep \<and> lStep \<le> 0)"
  proof (cases "0 \<le> ?x")
    case True
    have "(- ?x) div ?y \<le> 0" using True y by (simp add: div_nonpos_pos_le0)
    moreover have "- ?x \<le> (- ?x) div ?y"
    proof (cases "?x = 0")
      case True
      then show ?thesis by simp
    next
      case False
      with \<open>0 \<le> ?x\<close> have "- ?x < 0" by simp
      from zdiv_mono2_neg [OF this, of 1 ?y] y show ?thesis by simp
    qed
    ultimately show ?thesis using True st by simp
  next
    case False
    then have p: "0 \<le> - ?x" by simp
    then have "(- ?x) div ?y \<le> - ?x" by (rule int_div_le_nonneg)
    moreover have "0 \<le> (- ?x) div ?y" using p y by (simp add: pos_imp_zdiv_nonneg_iff)
    ultimately show ?thesis using False st by simp
  qed
  have 1: "is_int (hi - lo)" "is_int (hi - lo + 1)"
    using lo hi by (simp_all add: is_int_def INT_MIN_def INT_MAX_def)
  have 2: "is_int (lo + lStep)"
    using lo hi b by (cases "0 \<le> ?x") (simp_all add: is_int_def INT_MIN_def INT_MAX_def)
  have 3: "\<forall>x\<in>set (dff_lambdas (lo + lStep) hi lStep). x + lStep \<le> INT_MAX"
  proof
    fix x assume x: "x \<in> set (dff_lambdas (lo + lStep) hi lStep)"
    from dff_lambdas_bounds [OF x] have xh: "x < hi" by simp
    have "lStep \<le> hi + 1" using b lo hi by (cases "0 \<le> ?x") simp_all
    with xh hi show "x + lStep \<le> INT_MAX" by (simp add: INT_MAX_def)
  qed
  from 1 2 3 show ?thesis by blast
qed

text \<open>
  Claim C6 (dual-feasibility sampling), as the loop computes it.  For every transform
  \<open>f\<close>, range function \<open>l\<close>, weights, capacity and sanitisation flag, and every number
  of samples \<open>nLambdaSamples \<ge> 0\<close>, with \<open>r\<close> the (sanitised) range whose width
  \<open>max - min + 1\<close> is computed inside \<open>int\<close>: the step is the ceiling of the width over
  \<open>nLambdaSamples + 1\<close>; the parameters \<open>min + lStep\<close>, \<open>min + 2 lStep\<close>, \<dots> below
  \<open>max\<close> are evenly spaced and all strictly between \<open>min\<close> and \<open>max\<close>; at a parameter
  where the running sum of the transformed weights stays inside \<open>int\<close>, the bound is the
  ceiling of the sum of the transformed weights over the transformed capacity, and it is
  undefined when a transform or that division divides by zero; and provided the first
  parameter \<open>min + lStep\<close> and every increment \<open>lambda + lStep\<close> from one of these
  parameters stay inside \<open>int\<close>, the bound is evaluated at exactly these parameters and
  the result is the maximum of the bounds, starting from 0, so it is 0 when nothing is
  sampled.  Where the bounds are nonnegative, as ceilings of quotients of nonnegative
  operands are, the maximum with the initial 0 is the maximum of the bounds.
\<close>

theorem calcDffLowerbound_sampling:
  assumes nS: "0 \<le> nLambdaSamples"
    and r: "r = dff_range l capacity nNotZeroWeights maxWeight sanitize"
    and w: "is_int (lr_max r - lr_min r)" "is_int (lr_max r - lr_min r + 1)"
  shows "\<exists>lStep lambdas.
      ceil_div_pp (lr_max r - lr_min r + 1) (nLambdaSamples + 1) = Some lStep
    \<and> lambdas = dff_lambdas (lr_min r + lStep) (lr_max r) lStep
    \<and> lambdas = map (\<lambda>i. lr_min r + (int i + 1) * lStep) [0..<length lambdas]
    \<and> (\<forall>x\<in>set lambdas. lr_min r < x \<and> x < lr_max r)
    \<and> (\<forall>x. those (map (\<lambda>w. f w x capacity) weights) = None \<longrightarrow>
          calcDffLowerboundSingleLambda f weights capacity x = None)
    \<and> (\<forall>x vs. those (map (\<lambda>w. f w x capacity) weights) = Some vs \<and> int_sums_fit 0 vs \<longrightarrow>
          calcDffLowerboundSingleLambda f weights capacity x
            = (case f capacity x capacity of
                 None \<Rightarrow> None
               | Some tc \<Rightarrow> if tc = 0 then None
                            else Some \<lceil>real_of_int (sum_list vs) / real_of_int tc\<rceil>))
    \<and> (is_int (lr_min r + lStep) \<and> (\<forall>x\<in>set lambdas. x + lStep \<le> INT_MAX) \<longrightarrow>
          calcDffLowerbound f l nLambdaSamples weights capacity nNotZeroWeights maxWeight sanitize
            = (case those (map (calcDffLowerboundSingleLambda f weights capacity) lambdas) of
                 None \<Rightarrow> None
               | Some bounds \<Rightarrow> Some (Max (set (0 # bounds))))
        \<and> (\<forall>bounds. those (map (calcDffLowerboundSingleLambda f weights capacity) lambdas)
                        = Some bounds \<and> (\<forall>b\<in>set bounds. 0 \<le> b) \<longrightarrow>
              calcDffLowerbound f l nLambdaSamples weights capacity nNotZeroWeights maxWeight
                sanitize = Some (if bounds = [] then 0 else Max (set bounds))))"
  by (rule calcDffLowerbound_samples [OF nS r w])

theorem calcDffLowerbound_sampling_witness:
  "\<exists>lStep lambdas.
      ceil_div_pp (lr_max (dff_range lCCM1 20 6 12 True) - lr_min (dff_range lCCM1 20 6 12 True)
                   + 1) (3 + 1) = Some lStep
    \<and> lStep = 3 \<and> lambdas = [4, 7]
    \<and> dff_range lCCM1 20 6 12 True = \<lparr>lr_min = 1, lr_max = 10\<rparr>
    \<and> those (map (\<lambda>w. fCCM1 w 4 20) [12, 10, 10, 8, 6, 6]) = Some [6, 5, 5, 4, 2, 2]
    \<and> fCCM1 20 4 20 = Some 10
    \<and> calcDffLowerboundSingleLambda fCCM1 [12, 10, 10, 8, 6, 6] 20 4
        = Some \<lceil>real_of_int (sum_list [6, 5, 5, 4, 2, 2]) / real_of_int 10\<rceil>
    \<and> those (map (\<lambda>w. fCCM1 w 7 20) [12, 10, 10, 8, 6, 6]) = Some [2, 2, 2, 2, 0, 0]
    \<and> fCCM1 20 7 20 = Some 4
    \<and> those (map (calcDffLowerboundSingleLambda fCCM1 [12, 10, 10, 8, 6, 6] 20) lambdas)
        = Some [3, 2]
    \<and> calcDffLowerbound fCCM1 lCCM1 3 [12, 10, 10, 8, 6, 6] 20 6 12 True = Some 3"
proof -
  let ?r = "dff_range lCCM1 20 6 12 True"
  let ?ws = "[12, 10, 10, 8, 6, 6] :: int list"
  have rv: "?r = \<lparr>lr_min = 1, lr_max = 10\<rparr>" by code_simp
  have n: "(0::int) \<le> 3" by simp
  have w: "is_int (lr_max ?r - lr_min ?r)" "is_int (lr_max ?r - lr_min ?r + 1)"
    by (simp_all add: rv is_int_def INT_MIN_def INT_MAX_def)
  from calcDffLowerbound_sampling [where f = fCCM1 and weights = ?ws, OF n refl w]
  obtain lStep lambdas where
    s: "ceil_div_pp (lr_max ?r - lr_min ?r + 1) (3 + 1) = Some lStep"
    and l: "lambdas = dff_lambdas (lr_min ?r + lStep) (lr_max ?r) lStep"
    and one: "\<forall>x vs. those (map (\<lambda>w. fCCM1 w x 20) ?ws) = Some vs \<and> int_sums_fit 0 vs \<longrightarrow>
          calcDffLowerboundSingleLambda fCCM1 ?ws 20 x
            = (case fCCM1 20 x 20 of
                 None \<Rightarrow> None
               | Some tc \<Rightarrow> if tc = 0 then None
                            else Some \<lceil>real_of_int (sum_list vs) / real_of_int tc\<rceil>)"
    and m: "is_int (lr_min ?r + lStep) \<and> (\<forall>x\<in>set lambdas. x + lStep \<le> INT_MAX) \<longrightarrow>
          calcDffLowerbound fCCM1 lCCM1 3 ?ws 20 6 12 True
            = (case those (map (calcDffLowerboundSingleLambda fCCM1 ?ws 20) lambdas) of
                 None \<Rightarrow> None
               | Some bounds \<Rightarrow> Some (Max (set (0 # bounds))))
        \<and> (\<forall>bounds. those (map (calcDffLowerboundSingleLambda fCCM1 ?ws 20) lambdas)
                        = Some bounds \<and> (\<forall>b\<in>set bounds. 0 \<le> b) \<longrightarrow>
              calcDffLowerbound fCCM1 lCCM1 3 ?ws 20 6 12 True
                = Some (if bounds = [] then 0 else Max (set bounds)))" by blast
  from s have st: "lStep = 3" by (simp add: rv ceil_div_pp_def)
  from l have la: "lambdas = [4, 7]" by (simp add: rv st dff_lambdas.simps)
  have e4: "fCCM1 12 4 20 = Some 6" "fCCM1 10 4 20 = Some 5" "fCCM1 8 4 20 = Some 4"
    "fCCM1 6 4 20 = Some 2"
    and e7: "fCCM1 12 7 20 = Some 2" "fCCM1 10 7 20 = Some 2" "fCCM1 8 7 20 = Some 2"
    "fCCM1 6 7 20 = Some 0"
    and c4: "fCCM1 20 4 20 = Some 10" and c7: "fCCM1 20 7 20 = Some 4"
    by code_simp+
  have t4: "those (map (\<lambda>w. fCCM1 w 4 20) ?ws) = Some [6, 5, 5, 4, 2, 2]"
    and t7: "those (map (\<lambda>w. fCCM1 w 7 20) ?ws) = Some [2, 2, 2, 2, 0, 0]"
    by (simp_all add: e4 e7)
  have f4: "int_sums_fit 0 [6, 5, 5, 4, 2, 2]" and f7: "int_sums_fit 0 [2, 2, 2, 2, 0, 0]"
    by (simp_all add: is_int_def INT_MIN_def INT_MAX_def)
  have b4: "calcDffLowerboundSingleLambda fCCM1 ?ws 20 4
        = Some \<lceil>real_of_int (sum_list [6, 5, 5, 4, 2, 2]) / real_of_int 10\<rceil>"
    using one [rule_format, OF conjI [OF t4 f4]] by (simp only: c4 option.case) simp
  have b7: "calcDffLowerboundSingleLambda fCCM1 ?ws 20 7
        = Some \<lceil>real_of_int (sum_list [2, 2, 2, 2, 0, 0]) / real_of_int 4\<rceil>"
    using one [rule_format, OF conjI [OF t7 f7]] by (simp only: c7 option.case) simp
  have v: "\<lceil>real_of_int (sum_list [6, 5, 5, 4, 2, 2]) / real_of_int 10\<rceil> = 3"
    "\<lceil>real_of_int (sum_list [2, 2, 2, 2, 0, 0]) / real_of_int 4\<rceil> = 2"
    by simp_all
  have b: "those (map (calcDffLowerboundSingleLambda fCCM1 ?ws 20) lambdas) = Some [3, 2]"
    by (simp only: la b4 b7 v list.map those.simps option.case option.map)
  have fit: "is_int (lr_min ?r + lStep) \<and> (\<forall>x\<in>set lambdas. x + lStep \<le> INT_MAX)"
    by (simp add: rv st la is_int_def INT_MIN_def INT_MAX_def)
  from m fit b have "calcDffLowerbound fCCM1 lCCM1 3 ?ws 20 6 12 True = Some 3" by simp
  with s st la rv t4 t7 c4 c7 b4 b show ?thesis by blast
qed

lemma dff_loop_step:
  "lambda < hi \<Longrightarrow> calcDffLowerboundSingleLambda f weights capacity lambda = Some lowerbound \<Longrightarrow>
   dff_loop f weights capacity lambda hi lStep fLowerbound
     = dff_loop f weights capacity (int_add lambda lStep) hi lStep (max fLowerbound lowerbound)"
  by (subst dff_loop.simps) simp

text \<open>
  Claim C6 as stated, for every capacity, at the transform BJ1 with capacity 2147483647,
  one item of size 1, ten samples and no sanitisation.  The range is
  \<open>[1, 2147483647]\<close> and the step is 195225787.  The tenth parameter is 1952257871;
  the increment \<open>lambda += lStep\<close> leaves the range of \<open>int\<close> and sets \<open>lambda\<close> to
  \<open>-2147483638\<close>, the test \<open>lambda < max\<close> holds, and the bound is evaluated at this
  parameter, which lies below the lower end of the range.
\<close>

theorem calcDffLowerbound_sampling_overflow:
  "dff_range lBJ1 2147483647 1 1 False = \<lparr>lr_min = 1, lr_max = 2147483647\<rparr>
   \<and> ceil_div_pp (int_add (int_sub 2147483647 1) 1) (10 + 1) = Some 195225787
   \<and> calcDffLowerbound fBJ1 lBJ1 10 [1] 2147483647 1 1 False
       = dff_loop fBJ1 [1] 2147483647 (- 2147483638) 2147483647 195225787 0
   \<and> int_add 1952257871 195225787 = - 2147483638
   \<and> calcDffLowerboundSingleLambda fBJ1 [1] 2147483647 (- 2147483638) = Some 0
   \<and> dff_loop fBJ1 [1] 2147483647 (- 2147483638) 2147483647 195225787 0
       = dff_loop fBJ1 [1] 2147483647 (- 1952257851) 2147483647 195225787 0
   \<and> (- 2147483638 :: int) < 1"
proof -
  have b1: "calcDffLowerboundSingleLambda fBJ1 [1] 2147483647 195225788 = Some 0"
    by code_simp
  have b2: "calcDffLowerboundSingleLambda fBJ1 [1] 2147483647 390451575 = Some 0"
    by code_simp
  have b3: "calcDffLowerboundSingleLambda fBJ1 [1] 2147483647 585677362 = Some 0"
    by code_simp
  have b4: "calcDffLowerboundSingleLambda fBJ1 [1] 2147483647 780903149 = Some 0"
    by code_simp
  have b5: "calcDffLowerboundSingleLambda fBJ1 [1] 2147483647 976128936 = Some 0"
    by code_simp
  have b6: "calcDffLowerboundSingleLambda fBJ1 [1] 2147483647 1171354723 = Some 0"
    by code_simp
  have b7: "calcDffLowerboundSingleLambda fBJ1 [1] 2147483647 1366580510 = Some 0"
    by code_simp
  have b8: "calcDffLowerboundSingleLambda fBJ1 [1] 2147483647 1561806297 = Some 0"
    by code_simp
  have b9: "calcDffLowerboundSingleLambda fBJ1 [1] 2147483647 1757032084 = Some 0"
    by code_simp
  have b10: "calcDffLowerboundSingleLambda fBJ1 [1] 2147483647 1952257871 = Some 0"
    by code_simp
  have b11: "calcDffLowerboundSingleLambda fBJ1 [1] 2147483647 (- 2147483638) = Some 0"
    by code_simp
  have s1: "dff_loop fBJ1 [1] 2147483647 195225788 2147483647 195225787 0
      = dff_loop fBJ1 [1] 2147483647 390451575 2147483647 195225787 0"
    using dff_loop_step [where hi = 2147483647 and lStep = 195225787 and fLowerbound = 0,
        OF _ b1]
    by (simp add: int_add_def wrap_int_def)
  have s2: "dff_loop fBJ1 [1] 2147483647 390451575 2147483647 195225787 0
      = dff_loop fBJ1 [1] 2147483647 585677362 2147483647 195225787 0"
    using dff_loop_step [where hi = 2147483647 and lStep = 195225787 and fLowerbound = 0,
        OF _ b2]
    by (simp add: int_add_def wrap_int_def)
  have s3: "dff_loop fBJ1 [1] 2147483647 585677362 2147483647 195225787 0
      = dff_loop fBJ1 [1] 2147483647 780903149 2147483647 195225787 0"
    using dff_loop_step [where hi = 2147483647 and lStep = 195225787 and fLowerbound = 0,
        OF _ b3]
    by (simp add: int_add_def wrap_int_def)
  have s4: "dff_loop fBJ1 [1] 2147483647 780903149 2147483647 195225787 0
      = dff_loop fBJ1 [1] 2147483647 976128936 2147483647 195225787 0"
    using dff_loop_step [where hi = 2147483647 and lStep = 195225787 and fLowerbound = 0,
        OF _ b4]
    by (simp add: int_add_def wrap_int_def)
  have s5: "dff_loop fBJ1 [1] 2147483647 976128936 2147483647 195225787 0
      = dff_loop fBJ1 [1] 2147483647 1171354723 2147483647 195225787 0"
    using dff_loop_step [where hi = 2147483647 and lStep = 195225787 and fLowerbound = 0,
        OF _ b5]
    by (simp add: int_add_def wrap_int_def)
  have s6: "dff_loop fBJ1 [1] 2147483647 1171354723 2147483647 195225787 0
      = dff_loop fBJ1 [1] 2147483647 1366580510 2147483647 195225787 0"
    using dff_loop_step [where hi = 2147483647 and lStep = 195225787 and fLowerbound = 0,
        OF _ b6]
    by (simp add: int_add_def wrap_int_def)
  have s7: "dff_loop fBJ1 [1] 2147483647 1366580510 2147483647 195225787 0
      = dff_loop fBJ1 [1] 2147483647 1561806297 2147483647 195225787 0"
    using dff_loop_step [where hi = 2147483647 and lStep = 195225787 and fLowerbound = 0,
        OF _ b7]
    by (simp add: int_add_def wrap_int_def)
  have s8: "dff_loop fBJ1 [1] 2147483647 1561806297 2147483647 195225787 0
      = dff_loop fBJ1 [1] 2147483647 1757032084 2147483647 195225787 0"
    using dff_loop_step [where hi = 2147483647 and lStep = 195225787 and fLowerbound = 0,
        OF _ b8]
    by (simp add: int_add_def wrap_int_def)
  have s9: "dff_loop fBJ1 [1] 2147483647 1757032084 2147483647 195225787 0
      = dff_loop fBJ1 [1] 2147483647 1952257871 2147483647 195225787 0"
    using dff_loop_step [where hi = 2147483647 and lStep = 195225787 and fLowerbound = 0,
        OF _ b9]
    by (simp add: int_add_def wrap_int_def)
  have s10: "dff_loop fBJ1 [1] 2147483647 1952257871 2147483647 195225787 0
      = dff_loop fBJ1 [1] 2147483647 (- 2147483638) 2147483647 195225787 0"
    using dff_loop_step [where hi = 2147483647 and lStep = 195225787 and fLowerbound = 0,
        OF _ b10]
    by (simp add: int_add_def wrap_int_def)
  have r: "dff_range lBJ1 2147483647 1 1 False = \<lparr>lr_min = 1, lr_max = 2147483647\<rparr>"
    by (simp add: dff_range_def lBJ1_def)
  have s: "ceil_div_pp (int_add (int_sub 2147483647 1) 1) (10 + 1) = Some 195225787"
    by (simp add: ceil_div_pp_def int_add_def int_sub_def wrap_int_def)
  have "calcDffLowerbound fBJ1 lBJ1 10 [1] 2147483647 1 1 False
      = dff_loop fBJ1 [1] 2147483647 195225788 2147483647 195225787 0"
    using s by (simp add: calcDffLowerbound_def lBJ1_def Let_def int_add_def wrap_int_def)
  then have c: "calcDffLowerbound fBJ1 lBJ1 10 [1] 2147483647 1 1 False
      = dff_loop fBJ1 [1] 2147483647 (- 2147483638) 2147483647 195225787 0"
    by (simp only: s1 s2 s3 s4 s5 s6 s7 s8 s9 s10)
  have o: "int_add 1952257871 195225787 = - 2147483638"
    by (simp add: int_add_def wrap_int_def)
  have n: "dff_loop fBJ1 [1] 2147483647 (- 2147483638) 2147483647 195225787 0
       = dff_loop fBJ1 [1] 2147483647 (- 1952257851) 2147483647 195225787 0"
    using dff_loop_step [where hi = 2147483647 and lStep = 195225787 and fLowerbound = 0,
        OF _ b11]
    by (simp add: int_add_def wrap_int_def)
  have lt: "(- 2147483638 :: int) < 1" by simp
  from r s c o b11 n lt show ?thesis by blast
qed

text \<open>
  Claim C7 (sanitisation safety), evaluated at 65537 nonzero weights of maximum 65536
  and the range \<open>[1, 100000]\<close>.  The product \<open>65537 * 65536\<close> exceeds the largest
  \<open>int\<close>; its two's-complement value is 65536, so the upper end becomes
  \<open>max() / 65536 = 32767\<close>, and \<open>nNotZeroWeights * maxWeight * 32767\<close> is far above
  the largest \<open>int\<close>.
\<close>

theorem sanitizeLambdaRange_product_overflow:
  "sanitizeLambdaRange \<lparr>lr_min = 1, lr_max = 100000\<rparr> 65537 65536 = \<lparr>lr_min = 1, lr_max = 32767\<rparr>
   \<and> INT_MAX < 65537 * 65536 * 32767"
  by (simp add: sanitizeLambdaRange_def wrap_int_def INT_MAX_def signed_divide_int_def)

text \<open>
  Where the product fits in an \<open>int\<close>, the sanitised range keeps the lower end and its
  upper end bounds the triple product; without nonzero weights the range is \<open>[0, -1]\<close>.
\<close>

lemma sanitizeLambdaRange_in_range:
  assumes "0 < nNotZeroWeights * maxWeight" "nNotZeroWeights * maxWeight \<le> INT_MAX"
    and "x \<le> lr_max (sanitizeLambdaRange r nNotZeroWeights maxWeight)"
  shows "lr_min (sanitizeLambdaRange r nNotZeroWeights maxWeight) = lr_min r
       \<and> nNotZeroWeights * maxWeight * x \<le> INT_MAX"
proof -
  let ?p = "nNotZeroWeights * maxWeight"
  have w: "wrap_int ?p = ?p" using assms(1,2) by (simp add: wrap_int_def INT_MAX_def)
  have sd: "INT_MAX sdiv ?p = INT_MAX div ?p"
    using assms(1) by (simp add: signed_divide_int_def INT_MAX_def)
  from assms(1) have "?p \<noteq> 0" by linarith
  then have ne: "(?p \<noteq> 0) = True" by (rule eqTrueI)
  have s: "sanitizeLambdaRange r nNotZeroWeights maxWeight
      = \<lparr>lr_min = lr_min r, lr_max = min (INT_MAX div ?p) (lr_max r)\<rparr>"
    by (simp only: sanitizeLambdaRange_def w sd ne if_True Let_def)
  with assms(3) have "x \<le> INT_MAX div ?p" by simp
  with assms(1) have "?p * x \<le> ?p * (INT_MAX div ?p)" by (intro mult_left_mono) simp_all
  also have "\<dots> \<le> INT_MAX"
  proof -
    have "?p * (INT_MAX div ?p) + INT_MAX mod ?p = INT_MAX" by (rule mult_div_mod_eq)
    moreover have "0 \<le> INT_MAX mod ?p" using assms(1) by (rule pos_mod_sign)
    ultimately show ?thesis by linarith
  qed
  finally show ?thesis by (simp add: s)
qed

lemma sanitizeLambdaRange_no_weights:
  "sanitizeLambdaRange r 0 maxWeight = \<lparr>lr_min = 0, lr_max = - 1\<rparr>"
  by (simp add: sanitizeLambdaRange_def wrap_int_def)

text \<open>
  The sanitised range bounds products of weights only.  With one item of size 1 and
  capacity \<open>2^30\<close> the range of FS1 stays \<open>[1, 100]\<close>, with
  \<open>nLambdaSamples = 10\<close> the step is 10 and the first parameter is 11, and the
  product \<open>capacity * 11\<close> that FS1 computes for the transformed capacity is above the
  largest \<open>int\<close>; its \<open>int\<close> value is negative.
\<close>

lemma sanitizeLambdaRange_ignores_capacity:
  "sanitizeLambdaRange (lFS1 1073741824) 1 1 = \<lparr>lr_min = 1, lr_max = 100\<rparr>
   \<and> ceil_div_pp (100 - 1 + 1) (10 + 1) = Some 10
   \<and> 11 \<in> set (dff_lambdas (1 + 10) 100 10)
   \<and> INT_MAX < 1073741824 * 11
   \<and> fFS1 1073741824 11 1073741824 = Some (- 1073741824)"
  by (simp add: sanitizeLambdaRange_def lFS1_def wrap_int_def INT_MAX_def signed_divide_int_def
        dff_lambdas.simps fFS1_def c_mod_def c_div_def signed_modulo_int_def ceil_div_pp_def
        int_add_def int_mul_def INT_MIN_def)

section \<open>Division by zero in the transforms\<close>

text \<open>
  A sampled parameter lies strictly inside the range of the transform, sanitised or not;
  at capacity 0 the ranges of the five transforms other than FS1 have no such parameter.
\<close>

lemma dff_range_inside:
  assumes "lr_min (dff_range l c n mw san) < x" "x < lr_max (dff_range l c n mw san)"
  shows "lr_min (l c) < x \<and> x < lr_max (l c)"
proof (cases san)
  case False
  with assms show ?thesis by (simp add: dff_range_def)
next
  case True
  show ?thesis
  proof (cases "wrap_int (n * mw) = 0")
    case z: True
    with True assms show ?thesis by (simp add: dff_range_def sanitizeLambdaRange_def)
  next
    case nz: False
    with True assms show ?thesis by (simp add: dff_range_def sanitizeLambdaRange_def Let_def)
  qed
qed

lemma sibling_ranges_empty_at_zero:
  assumes "l = lCCM1 \<or> l = lMT \<or> l = lBJ1 \<or> l = lVB2 \<or> l = lRAD2"
  shows "\<not> (lr_min (dff_range l 0 n mw san) < x \<and> x < lr_max (dff_range l 0 n mw san))"
proof
  assume "lr_min (dff_range l 0 n mw san) < x \<and> x < lr_max (dff_range l 0 n mw san)"
  then have "lr_min (l 0) < x \<and> x < lr_max (l 0)" using dff_range_inside by blast
  with assms show False
    by (auto simp: lCCM1_def lMT_def lBJ1_def lVB2_def lRAD2_def int_add_def wrap_int_def)
qed

lemma fFS1_capacity_zero:
  "calcDffLowerboundSingleLambda fFS1 ws 0 x = None"
  by (cases "sumTransformedWeights fFS1 ws x 0 0")
     (simp_all add: calcDffLowerboundSingleLambda_def fFS1_def c_mod_def)

text \<open>
  Claim C8 (division by zero), at capacity 0 with the transform FS1.  The range of FS1
  is \<open>[1, 100]\<close> for every capacity, so with at least one sample the loop body runs; the
  transform computes \<open>w * (l + 1) % c\<close> with \<open>c = 0\<close>, for the weights and for the
  capacity itself.
\<close>

theorem fFS1_divides_by_zero:
  assumes "1 \<le> nLambdaSamples"
  shows "calcDffLowerbound fFS1 lFS1 nLambdaSamples weights 0 nNotZeroWeights maxWeight False
           = None"
proof -
  let ?y = "nLambdaSamples + 1"
  let ?s = "- ((- 100) div ?y)"
  have y: "2 \<le> ?y" using assms by simp
  have "(- 100) div ?y < 0" using y by (intro div_neg_pos_less0) simp_all
  then have s1: "0 < ?s" by simp
  have "(- 100) div 2 \<le> (- 100) div ?y" using y by (intro zdiv_mono2_neg) simp_all
  then have s2: "?s \<le> 50" by simp
  have wd: "int_add (int_sub 100 1) 1 = 100" by (simp add: int_add_def int_sub_def wrap_int_def)
  have st: "ceil_div_pp (int_add (int_sub 100 1) 1) ?y = Some ?s"
    using y by (simp add: wd ceil_div_pp_def)
  have ia: "int_add 1 ?s = 1 + ?s"
    using s1 s2 by (intro int_add_id) (simp add: is_int_def INT_MIN_def INT_MAX_def)
  have "dff_loop fFS1 weights 0 (1 + ?s) 100 ?s 0 = None"
    by (subst dff_loop.simps) (use s1 s2 in \<open>simp add: fFS1_capacity_zero\<close>)
  with st ia show ?thesis by (simp add: calcDffLowerbound_def lFS1_def Let_def)
qed

theorem fFS1_divides_by_zero_witness:
  "(1::int) \<le> 10 \<and> calcDffLowerbound fFS1 lFS1 10 [1] 0 1 1 False = None
   \<and> calcDffLowerbound fFS1 lFS1 10 [1] 0 1 1 True = None
   \<and> ceil_div_pp (100 - 1 + 1) (10 + 1) = Some 10
   \<and> 11 \<in> set (dff_lambdas (1 + 10) 100 10) \<and> fFS1 0 11 0 = None \<and> fFS1 1 11 0 = None"
proof -
  have "(1::int) \<le> 10" by simp
  from fFS1_divides_by_zero [OF this, of "[1]" 1 1]
  have a: "calcDffLowerbound fFS1 lFS1 10 [1] 0 1 1 False = None" .
  have b: "calcDffLowerbound fFS1 lFS1 10 [1] 0 1 1 True = None"
    by (simp add: dff_eval lFS1_def fFS1_def)
  have c: "ceil_div_pp (100 - 1 + 1) (10 + 1) = Some 10"
    "11 \<in> set (dff_lambdas (1 + 10) 100 10)"
    by (simp_all add: ceil_div_pp_def dff_lambdas.simps)
  have d: "fFS1 0 11 0 = None" "fFS1 1 11 0 = None" by (simp_all add: fFS1_def c_mod_def)
  from a b c d show ?thesis by simp
qed

end
